theory Spec2Isabelle
  imports
    Main
    "HOL-Library.FSet"
    "HOL-Library.Finite_Map"
    "HOL-Library.Char_ord"
    "HOL-Library.List_Lexorder"
begin

section \<open>World definition\<close>

text \<open>
  The module \<^verbatim>\<open>ServiceDogProblem.py\<close> keeps the world in two module-level
  dictionaries, \<^verbatim>\<open>GRAPH\<close> (location to ordered neighbour list) and
  \<^verbatim>\<open>ITEM_START_POS\<close> (item to home location). Every function below reads them;
  the embedding passes them explicitly as a \<open>world\<close>, and \<open>shipped\<close> is the pair the
  module defines. A Python \<^verbatim>\<open>dict\<close> is a finite map, a \<^verbatim>\<open>frozenset\<close> a finite set.
\<close>

type_synonym location = string
type_synonym item = string

record world =
  graph :: "(location, location list) fmap"
  item_start_pos :: "(item, location) fmap"

definition ROOM1 :: location where "ROOM1 = ''room1''"
definition ROOM2 :: location where "ROOM2 = ''room2''"
definition ROOM3 :: location where "ROOM3 = ''room3''"
definition ROOM4 :: location where "ROOM4 = ''room4''"
definition ROOM5 :: location where "ROOM5 = ''room5''"
definition OUTSIDE1 :: location where "OUTSIDE1 = ''outside1''"
definition OUTSIDE2 :: location where "OUTSIDE2 = ''outside2''"

definition ITEM1 :: item where "ITEM1 = ''item1''"
definition ITEM2 :: item where "ITEM2 = ''item2''"

definition GRAPH :: "(location, location list) fmap" where
  "GRAPH = fmap_of_list
     [(ROOM1, [ROOM2, ROOM3]),
      (ROOM2, [ROOM1, ROOM3]),
      (ROOM3, [ROOM1, ROOM2, OUTSIDE1, OUTSIDE2, ROOM4]),
      (ROOM4, [ROOM3, OUTSIDE2, ROOM5]),
      (ROOM5, [ROOM4]),
      (OUTSIDE1, [ROOM3]),
      (OUTSIDE2, [ROOM3, ROOM4])]"

definition ITEM_START_POS :: "(item, location) fmap" where
  "ITEM_START_POS = fmap_of_list [(ITEM1, ROOM2), (ITEM2, ROOM5)]"

definition shipped :: world where
  "shipped = \<lparr>graph = GRAPH, item_start_pos = ITEM_START_POS\<rparr>"

lemmas shipped_defs =
  shipped_def GRAPH_def ITEM_START_POS_def ROOM1_def ROOM2_def ROOM3_def ROOM4_def
  ROOM5_def OUTSIDE1_def OUTSIDE2_def ITEM1_def ITEM2_def

section \<open>State\<close>

record State =
  dog_pos :: location
  remaining_items :: "item fset"

text \<open>A dictionary subscript or a failed plan step raises; both are values of the model.\<close>

datatype error = KeyError | RuntimeError

text \<open>
  \<^verbatim>\<open>[it for it in remaining_items if ITEM_START_POS[it] == room]\<close>: the comprehension
  visits every remaining item, subscripts \<^verbatim>\<open>ITEM_START_POS\<close> with it (a missing key
  raises \<^verbatim>\<open>KeyError\<close>) and keeps the item when its home is \<open>room\<close>. Python does not
  fix the iteration order of a frozenset; the model visits the items in sorted order.
\<close>

fun items_loop :: "world \<Rightarrow> location \<Rightarrow> item list \<Rightarrow> error + item list" where
  "items_loop w room [] = Inr []"
| "items_loop w room (it # its) =
     (case fmlookup (item_start_pos w) it of
        None \<Rightarrow> Inl KeyError
      | Some home \<Rightarrow>
          (case items_loop w room its of
             Inl e \<Rightarrow> Inl e
           | Inr found \<Rightarrow> Inr (if home = room then it # found else found)))"

definition items_in_room :: "world \<Rightarrow> location \<Rightarrow> item fset \<Rightarrow> error + item list" where
  "items_in_room w room remaining = items_loop w room (sorted_list_of_fset remaining)"

definition auto_pickup :: "world \<Rightarrow> State \<Rightarrow> error + (State \<times> item list)" where
  "auto_pickup w s =
     (case items_in_room w (dog_pos s) (remaining_items s) of
        Inl e \<Rightarrow> Inl e
      | Inr found \<Rightarrow>
          if found = [] then Inr (s, [])
          else Inr (s\<lparr>remaining_items := ffilter (\<lambda>x. x \<notin> set found) (remaining_items s)\<rparr>,
                    found))"

definition initial_state :: "world \<Rightarrow> location \<Rightarrow> error + State" where
  "initial_state w start_pos =
     (case auto_pickup w \<lparr>dog_pos = start_pos, remaining_items = fmdom (item_start_pos w)\<rparr> of
        Inl e \<Rightarrow> Inl e
      | Inr (s, _) \<Rightarrow> Inr s)"

section \<open>Actions (move only)\<close>

definition move_label :: "location \<Rightarrow> location \<Rightarrow> string" where
  "move_label src dst = ''move '' @ src @ '' -> '' @ dst"

fun actions_loop ::
  "world \<Rightarrow> State \<Rightarrow> location list \<Rightarrow> (string \<times> State) list \<Rightarrow> error + (string \<times> State) list"
where
  "actions_loop w s [] actions = Inr actions"
| "actions_loop w s (nxt # rest) actions =
     (case auto_pickup w (s\<lparr>dog_pos := nxt\<rparr>) of
        Inl e \<Rightarrow> Inl e
      | Inr (moved, _) \<Rightarrow> actions_loop w s rest (actions @ [(move_label (dog_pos s) nxt, moved)]))"

definition possible_actions :: "world \<Rightarrow> State \<Rightarrow> error + (string \<times> State) list" where
  "possible_actions w s =
     (case fmlookup (graph w) (dog_pos s) of
        None \<Rightarrow> Inl KeyError
      | Some neighbours \<Rightarrow> actions_loop w s neighbours [])"

section \<open>Goal\<close>

definition is_goal :: "State \<Rightarrow> bool" where
  "is_goal s = (fcard (remaining_items s) = 0)"

section \<open>BFS planner\<close>

text \<open>
  \<open>prev\<close> and \<open>prev_action\<close> are the two dictionaries of \<^verbatim>\<open>bfs_plan\<close>; the value stored
  for the start state is Python's \<^verbatim>\<open>None\<close>, so the values are options, and the
  plan collects whatever \<open>prev_action\<close> holds, a label or \<^verbatim>\<open>None\<close>. The walk back
  along \<open>prev\<close> is a \<^verbatim>\<open>while\<close> loop whose termination depends on the dictionary, and
  the search loop runs until the queue is empty: both are partial functions, and
  \<open>None\<close> at the outer level means that the loop does not return.
\<close>

type_synonym prev_map = "State \<rightharpoonup> State option"
type_synonym action_map = "State \<rightharpoonup> string option"

partial_function (option) walk_back ::
  "prev_map \<Rightarrow> action_map \<Rightarrow> State \<Rightarrow> string option list \<Rightarrow>
   (error + string option list) option"
where
  "walk_back prev prev_action s plan =
     (case prev s of
        None \<Rightarrow> Some (Inl KeyError)
      | Some None \<Rightarrow> Some (Inr plan)
      | Some (Some p) \<Rightarrow>
          (case prev_action s of
             None \<Rightarrow> Some (Inl KeyError)
           | Some a \<Rightarrow> walk_back prev prev_action p (plan @ [a])))"

fun visit ::
  "State \<Rightarrow> (string \<times> State) list \<Rightarrow> State list \<times> prev_map \<times> action_map \<Rightarrow>
   State list \<times> prev_map \<times> action_map"
where
  "visit cur [] st = st"
| "visit cur ((action, nxt) # rest) (q, prev, prev_action) =
     (if prev nxt = None
      then visit cur rest (q @ [nxt], prev(nxt \<mapsto> Some cur), prev_action(nxt \<mapsto> Some action))
      else visit cur rest (q, prev, prev_action))"

partial_function (option) bfs_loop ::
  "world \<Rightarrow> State list \<Rightarrow> prev_map \<Rightarrow> action_map \<Rightarrow>
   (error + string option list option) option"
where
  "bfs_loop w q prev prev_action =
     (case q of
        [] \<Rightarrow> Some (Inr None)
      | cur # rest \<Rightarrow>
          if is_goal cur then
            (case walk_back prev prev_action cur [] of
               None \<Rightarrow> None
             | Some (Inl e) \<Rightarrow> Some (Inl e)
             | Some (Inr plan) \<Rightarrow> Some (Inr (Some (rev plan))))
          else
            (case possible_actions w cur of
               Inl e \<Rightarrow> Some (Inl e)
             | Inr acts \<Rightarrow>
                 (case visit cur acts (rest, prev, prev_action) of
                    (q', prev', prev_action') \<Rightarrow> bfs_loop w q' prev' prev_action')))"

definition bfs_plan :: "world \<Rightarrow> State \<Rightarrow> (error + string option list option) option" where
  "bfs_plan w start = bfs_loop w [start] [start \<mapsto> None] [start \<mapsto> None]"

section \<open>Executing a plan\<close>

text \<open>
  The auto-solve branch of \<^verbatim>\<open>play_interactive\<close> replays a plan: at each step it filters
  \<^verbatim>\<open>possible_actions(s)\<close> for the pairs whose label is the step, raises
  \<^verbatim>\<open>RuntimeError\<close> when there is none and moves to the state of the first one.
\<close>

fun execute_plan :: "world \<Rightarrow> State \<Rightarrow> string option list \<Rightarrow> error + State" where
  "execute_plan w s [] = Inr s"
| "execute_plan w s (step # rest) =
     (case possible_actions w s of
        Inl e \<Rightarrow> Inl e
      | Inr acts \<Rightarrow>
          (case filter (\<lambda>(a, ns). Some a = step) acts of
             [] \<Rightarrow> Inl RuntimeError
           | (_, ns) # _ \<Rightarrow> execute_plan w ns rest))"

section \<open>Notions used in the statements and proofs\<close>

text \<open>
  \<open>known_items\<close>: every remaining item is a key of \<^verbatim>\<open>ITEM_START_POS\<close>.
  \<open>items_at\<close>: the remaining items whose home is the given room.
  \<open>moved_state\<close>: the state after entering a neighbour and picking up what lies there.
\<close>

definition known_items :: "world \<Rightarrow> State \<Rightarrow> bool" where
  "known_items w s = (remaining_items s |\<subseteq>| fmdom (item_start_pos w))"

definition items_at :: "world \<Rightarrow> location \<Rightarrow> item fset \<Rightarrow> item fset" where
  "items_at w room remaining =
     ffilter (\<lambda>it. fmlookup (item_start_pos w) it = Some room) remaining"

definition moved_state :: "world \<Rightarrow> State \<Rightarrow> location \<Rightarrow> State" where
  "moved_state w s n =
     s\<lparr>dog_pos := n, remaining_items := remaining_items s |-| items_at w n (remaining_items s)\<rparr>"

subsection \<open>Legal paths and distances\<close>

text \<open>
  A path is a list of \<open>(action, state)\<close> pairs, each taken from \<open>possible_actions\<close> of the
  state it is applied to; \<open>end_state\<close> is where it leads. \<open>transition\<close>, \<open>reach_in\<close>,
  \<open>reachable\<close> and \<open>distance\<close> are the notions the correctness proof of the search uses.
\<close>

fun legal_path :: "world \<Rightarrow> State \<Rightarrow> (string \<times> State) list \<Rightarrow> bool" where
  "legal_path w s [] = True"
| "legal_path w s (tr # rest) =
     (case possible_actions w s of
        Inl e \<Rightarrow> False
      | Inr acts \<Rightarrow> tr \<in> set acts \<and> legal_path w (snd tr) rest)"

fun end_state :: "State \<Rightarrow> (string \<times> State) list \<Rightarrow> State" where
  "end_state s [] = s"
| "end_state s (tr # rest) = end_state (snd tr) rest"

definition transition :: "world \<Rightarrow> State \<Rightarrow> string \<Rightarrow> State \<Rightarrow> bool" where
  "transition w s a t = (\<exists>acts. possible_actions w s = Inr acts \<and> (a, t) \<in> set acts)"

definition reach_in :: "world \<Rightarrow> State \<Rightarrow> nat \<Rightarrow> State \<Rightarrow> bool" where
  "reach_in w s n t = (\<exists>ts. legal_path w s ts \<and> length ts = n \<and> end_state s ts = t)"

definition reachable :: "world \<Rightarrow> State \<Rightarrow> State set" where
  "reachable w s = {t. \<exists>n. reach_in w s n t}"

definition distance :: "world \<Rightarrow> State \<Rightarrow> State \<Rightarrow> nat" where
  "distance w s t = (LEAST n. reach_in w s n t)"

subsection \<open>Closed worlds\<close>

text \<open>
  \<open>neighbours_closed\<close>: every neighbour named in the graph is a key of the graph.
  \<open>homes_closed\<close>: every item home is a key of the graph. \<open>wf_state\<close>: the location is
  a key of the graph and every remaining item a key of the item placement.
  \<open>split_world\<close> is a world whose only item lies in a room that no edge leads to.
  \<open>open_world\<close> is a world whose graph names a neighbour that is not a key.
  \<open>shipped_states\<close> lists the states of the shipped world: seven locations, four item
  sets.
\<close>

definition neighbours_closed :: "world \<Rightarrow> bool" where
  "neighbours_closed w =
     fBall (fmran (graph w)) (\<lambda>ns. list_all (\<lambda>n. n |\<in>| fmdom (graph w)) ns)"

definition homes_closed :: "world \<Rightarrow> bool" where
  "homes_closed w = fBall (fmran (item_start_pos w)) (\<lambda>home. home |\<in>| fmdom (graph w))"

definition closed_world :: "world \<Rightarrow> bool" where
  "closed_world w = (neighbours_closed w \<and> homes_closed w)"

definition wf_state :: "world \<Rightarrow> State \<Rightarrow> bool" where
  "wf_state w s = (dog_pos s |\<in>| fmdom (graph w) \<and> remaining_items s |\<subseteq>| fmdom (item_start_pos w))"

definition split_world :: world where
  "split_world = \<lparr>graph = fmap_of_list [(''a'', [''b'']), (''b'', [''a'']), (''c'', [])],
                  item_start_pos = fmap_of_list [(''x'', ''c'')]\<rparr>"

definition open_world :: world where
  "open_world = \<lparr>graph = fmap_of_list [(''a'', [''b''])], item_start_pos = fmempty\<rparr>"

definition returns_plan :: "(error + string option list option) option \<Rightarrow> bool" where
  "returns_plan r = (case r of Some (Inr (Some plan)) \<Rightarrow> True | _ \<Rightarrow> False)"

definition shipped_states :: "State list" where
  "shipped_states =
     concat (map (\<lambda>p. map (\<lambda>r. \<lparr>dog_pos = p, remaining_items = r\<rparr>)
                         [{||}, {|ITEM1|}, {|ITEM2|}, {|ITEM1, ITEM2|}])
                 [ROOM1, ROOM2, ROOM3, ROOM4, ROOM5, OUTSIDE1, OUTSIDE2])"

fun all_return_plans :: "world \<Rightarrow> State list \<Rightarrow> bool" where
  "all_return_plans w [] = True"
| "all_return_plans w (s # ss) = (returns_plan (bfs_plan w s) \<and> all_return_plans w ss)"

subsection \<open>The search with a log of the enqueued states\<close>

text \<open>
  \<open>visit_log\<close> and \<open>bfs_loop_log\<close> are \<open>visit\<close> and \<open>bfs_loop\<close> with one more component: the
  list of the states put on the queue so far, extended wherever the code calls
  \<^verbatim>\<open>q.append\<close>, and starting as \<open>[start]\<close> for \<^verbatim>\<open>deque([start])\<close>. They compute what \<open>visit\<close>
  and \<open>bfs_loop\<close> compute and return the log with it.
\<close>

fun visit_log ::
  "State \<Rightarrow> (string \<times> State) list \<Rightarrow> State list \<times> prev_map \<times> action_map \<times> State list \<Rightarrow>
   State list \<times> prev_map \<times> action_map \<times> State list"
where
  "visit_log cur [] st = st"
| "visit_log cur ((action, nxt) # rest) (q, prev, prev_action, enq) =
     (if prev nxt = None
      then visit_log cur rest
             (q @ [nxt], prev(nxt \<mapsto> Some cur), prev_action(nxt \<mapsto> Some action), enq @ [nxt])
      else visit_log cur rest (q, prev, prev_action, enq))"

partial_function (option) bfs_loop_log ::
  "world \<Rightarrow> State list \<Rightarrow> prev_map \<Rightarrow> action_map \<Rightarrow> State list \<Rightarrow>
   ((error + string option list option) \<times> State list) option"
where
  "bfs_loop_log w q prev prev_action enq =
     (case q of
        [] \<Rightarrow> Some (Inr None, enq)
      | cur # rest \<Rightarrow>
          if is_goal cur then
            (case walk_back prev prev_action cur [] of
               None \<Rightarrow> None
             | Some (Inl e) \<Rightarrow> Some (Inl e, enq)
             | Some (Inr plan) \<Rightarrow> Some (Inr (Some (rev plan)), enq))
          else
            (case possible_actions w cur of
               Inl e \<Rightarrow> Some (Inl e, enq)
             | Inr acts \<Rightarrow>
                 (case visit_log cur acts (rest, prev, prev_action, enq) of
                    (q', prev', prev_action', enq') \<Rightarrow>
                      bfs_loop_log w q' prev' prev_action' enq')))"

definition bfs_plan_log ::
  "world \<Rightarrow> State \<Rightarrow> ((error + string option list option) \<times> State list) option" where
  "bfs_plan_log w start = bfs_loop_log w [start] [start \<mapsto> None] [start \<mapsto> None] [start]"

subsection \<open>Invariant and result of the search loop\<close>

text \<open>
  \<open>bfs_inv\<close> relates the queue and the two dictionaries of \<^verbatim>\<open>bfs_plan\<close> to the distances
  from the start: the queue is sorted by distance, its members differ by at most one
  level, recorded states that have left the queue are expanded non-goals, and \<open>prev\<close>
  leads one level back. \<open>bfs_post\<close> is what each kind of result means.
\<close>

definition bfs_inv :: "world \<Rightarrow> State \<Rightarrow> State list \<Rightarrow> prev_map \<Rightarrow> action_map \<Rightarrow> bool" where
  "bfs_inv w start q prev pa \<longleftrightarrow>
     prev start = Some None \<and>
     set q \<subseteq> dom prev \<and>
     dom prev \<subseteq> reachable w start \<and>
     (\<forall>u. prev u = Some None \<longrightarrow> u = start) \<and>
     (\<forall>u p. prev u = Some (Some p) \<longrightarrow>
        p \<in> dom prev \<and> distance w start u = Suc (distance w start p) \<and>
        (\<exists>a. pa u = Some (Some a) \<and> transition w p a u)) \<and>
     sorted (map (distance w start) q) \<and>
     (\<forall>u \<in> set q. distance w start u \<le> Suc (distance w start (hd q))) \<and>
     (\<forall>u \<in> dom prev - set q. \<not> is_goal u \<and>
        (\<exists>acts. possible_actions w u = Inr acts \<and> snd ` set acts \<subseteq> dom prev))"

definition bfs_post :: "world \<Rightarrow> State \<Rightarrow> error + string option list option \<Rightarrow> bool" where
  "bfs_post w start r =
     (case r of
        Inl e \<Rightarrow> \<exists>u \<in> reachable w start. possible_actions w u = Inl e
      | Inr None \<Rightarrow> \<forall>u \<in> reachable w start. \<not> is_goal u
      | Inr (Some plan) \<Rightarrow>
          \<exists>ts. legal_path w start ts \<and> is_goal (end_state start ts) \<and>
               plan = map (Some \<circ> fst) ts \<and>
               (\<forall>ts'. legal_path w start ts' \<and> is_goal (end_state start ts')
                      \<longrightarrow> length ts \<le> length ts'))"

section \<open>Picking up items\<close>

lemma items_loop_result:
  "items_loop w room xs =
     (if \<forall>it \<in> set xs. it |\<in>| fmdom (item_start_pos w)
      then Inr (filter (\<lambda>it. fmlookup (item_start_pos w) it = Some room) xs)
      else Inl KeyError)"
proof (induction xs)
  case Nil
  show ?case by simp
next
  case (Cons it its)
  show ?case
  proof (cases "fmlookup (item_start_pos w) it")
    case None
    then have "it |\<notin>| fmdom (item_start_pos w)" by (simp add: fmdom_notI)
    with None show ?thesis by simp
  next
    case (Some home)
    then have "it |\<in>| fmdom (item_start_pos w)" by (simp add: fmdomI)
    with Some Cons.IH show ?thesis by auto
  qed
qed

lemma items_in_room_result:
  "items_in_room w room remaining =
     (if remaining |\<subseteq>| fmdom (item_start_pos w)
      then Inr (filter (\<lambda>it. fmlookup (item_start_pos w) it = Some room)
                  (sorted_list_of_fset remaining))
      else Inl KeyError)"
  unfolding items_in_room_def items_loop_result by auto

lemma set_found:
  "set (filter (\<lambda>it. fmlookup (item_start_pos w) it = Some room) (sorted_list_of_fset remaining))
     = fset (items_at w room remaining)"
  by (auto simp: items_at_def)

lemma fset_of_list_empty_iff: "fset_of_list xs = {||} \<longleftrightarrow> xs = []"
  by (cases xs) auto

lemma distinct_sorted_list_of_fset: "distinct (sorted_list_of_fset S)"
  by (simp add: sorted_list_of_fset.rep_eq)

lemma auto_pickup_known:
  assumes "known_items w s"
  shows "\<exists>found. auto_pickup w s =
            Inr (s\<lparr>remaining_items := remaining_items s |-| items_at w (dog_pos s) (remaining_items s)\<rparr>, found)
          \<and> fset_of_list found = items_at w (dog_pos s) (remaining_items s) \<and> distinct found"
proof -
  let ?P = "\<lambda>it. fmlookup (item_start_pos w) it = Some (dog_pos s)"
  let ?found = "filter ?P (sorted_list_of_fset (remaining_items s))"
  let ?F = "items_at w (dog_pos s) (remaining_items s)"
  have res: "items_in_room w (dog_pos s) (remaining_items s) = Inr ?found"
    using assms by (simp add: items_in_room_result known_items_def)
  have sf: "set ?found = fset ?F" by (rule set_found)
  have fl: "fset_of_list ?found = ?F"
    using sf by (metis fset_of_list.rep_eq fset_inject)
  have dist: "distinct ?found"
    by (rule distinct_filter) (rule distinct_sorted_list_of_fset)
  have rem: "ffilter (\<lambda>x. x \<notin> set ?found) (remaining_items s) = remaining_items s |-| ?F"
    unfolding sf by auto
  show ?thesis
  proof (cases "?found = []")
    case True
    then have "?F = {||}" using fl by simp
    then have "s\<lparr>remaining_items := remaining_items s |-| ?F\<rparr> = s" by simp
    with True res fl dist show ?thesis by (simp add: auto_pickup_def)
  next
    case False
    with res rem fl dist show ?thesis by (simp add: auto_pickup_def)
  qed
qed

lemma auto_pickup_unknown:
  "\<not> known_items w s \<Longrightarrow> auto_pickup w s = Inl KeyError"
  by (simp add: auto_pickup_def items_in_room_result known_items_def)

lemma auto_pickup_Inr_iff:
  "(\<exists>r. auto_pickup w s = Inr r) \<longleftrightarrow> known_items w s"
proof (cases "known_items w s")
  case True
  with auto_pickup_known [of w s] show ?thesis by blast
next
  case False
  with auto_pickup_unknown [of w s] show ?thesis by simp
qed

lemma auto_pickup_state:
  assumes "auto_pickup w s = Inr (s', found)"
  shows "known_items w s"
    and "s' = s\<lparr>remaining_items := remaining_items s |-| items_at w (dog_pos s) (remaining_items s)\<rparr>"
    and "fset_of_list found = items_at w (dog_pos s) (remaining_items s)"
proof -
  show k: "known_items w s" using assms auto_pickup_unknown [of w s] by auto
  from auto_pickup_known [OF k] assms
  show "s' = s\<lparr>remaining_items := remaining_items s |-| items_at w (dog_pos s) (remaining_items s)\<rparr>"
    and "fset_of_list found = items_at w (dog_pos s) (remaining_items s)"
    by auto
qed

lemma items_at_idem:
  "items_at w room (remaining |-| items_at w room remaining) = {||}"
  by (auto simp: items_at_def)

lemma auto_pickup_moved:
  assumes "known_items w s"
  shows "\<exists>found. auto_pickup w (s\<lparr>dog_pos := n\<rparr>) = Inr (moved_state w s n, found)"
proof -
  have "known_items w (s\<lparr>dog_pos := n\<rparr>)" using assms by (simp add: known_items_def)
  from auto_pickup_known [OF this] show ?thesis by (auto simp: moved_state_def)
qed

lemma actions_loop_result:
  "actions_loop w s ns acc =
     (if ns = [] \<or> known_items w s
      then Inr (acc @ map (\<lambda>n. (move_label (dog_pos s) n, moved_state w s n)) ns)
      else Inl KeyError)"
proof (induction ns arbitrary: acc)
  case Nil
  show ?case by simp
next
  case (Cons n ns)
  show ?case
  proof (cases "known_items w s")
    case True
    from auto_pickup_moved [OF True, of n] obtain found
      where "auto_pickup w (s\<lparr>dog_pos := n\<rparr>) = Inr (moved_state w s n, found)" by blast
    with True Cons.IH show ?thesis by simp
  next
    case False
    then have "\<not> known_items w (s\<lparr>dog_pos := n\<rparr>)" by (simp add: known_items_def)
    then have "auto_pickup w (s\<lparr>dog_pos := n\<rparr>) = Inl KeyError" by (rule auto_pickup_unknown)
    with False show ?thesis by simp
  qed
qed

lemma possible_actions_result:
  "possible_actions w s =
     (case fmlookup (graph w) (dog_pos s) of
        None \<Rightarrow> Inl KeyError
      | Some ns \<Rightarrow>
          if ns = [] \<or> known_items w s
          then Inr (map (\<lambda>n. (move_label (dog_pos s) n, moved_state w s n)) ns)
          else Inl KeyError)"
  by (simp add: possible_actions_def actions_loop_result split: option.split)

lemma possible_actions_InrD:
  assumes "possible_actions w s = Inr acts"
  shows "\<exists>ns. fmlookup (graph w) (dog_pos s) = Some ns
           \<and> acts = map (\<lambda>n. (move_label (dog_pos s) n, moved_state w s n)) ns"
  using assms by (auto simp: possible_actions_result split: option.splits if_splits)

lemma possible_actions_error: "possible_actions w s = Inl e \<Longrightarrow> e = KeyError"
  by (auto simp: possible_actions_result split: option.splits if_splits)

lemma remaining_moved_state: "remaining_items (moved_state w s n) |\<subseteq>| remaining_items s"
  by (auto simp: moved_state_def)

section \<open>Claims about picking up and expanding\<close>

lemma possible_actions_room1:
  "possible_actions shipped \<lparr>dog_pos = ''room1'', remaining_items = {|''item1'', ''item2''|}\<rparr>
   = Inr [(''move room1 -> room2'', \<lparr>dog_pos = ''room2'', remaining_items = {|''item2''|}\<rparr>),
          (''move room1 -> room3'', \<lparr>dog_pos = ''room3'', remaining_items = {|''item1'', ''item2''|}\<rparr>)]"
  by code_simp

lemma auto_pickup_room2:
  "auto_pickup shipped \<lparr>dog_pos = ''room2'', remaining_items = {|''item1'', ''item2''|}\<rparr>
   = Inr (\<lparr>dog_pos = ''room2'', remaining_items = {|''item2''|}\<rparr>, [''item1''])"
  by code_simp

text \<open>
  C4 (monotonic shrinking of remaining items). For every state \<open>s\<close> and every pair
  \<open>(a, s')\<close> that \<open>possible_actions\<close> emits for \<open>s\<close>, the remaining items of \<open>s'\<close> are
  a subset of those of \<open>s\<close>: no transition adds an item.
\<close>

theorem remaining_items_shrink:
  assumes "possible_actions w s = Inr acts" and "(a, s') \<in> set acts"
  shows "remaining_items s' |\<subseteq>| remaining_items s"
proof -
  from possible_actions_InrD [OF assms(1)] obtain ns
    where "acts = map (\<lambda>n. (move_label (dog_pos s) n, moved_state w s n)) ns" by blast
  with assms(2) obtain n where "s' = moved_state w s n" by auto
  then show ?thesis by (simp add: remaining_moved_state)
qed

theorem remaining_items_shrink_witness:
  "possible_actions shipped \<lparr>dog_pos = ''room1'', remaining_items = {|''item1'', ''item2''|}\<rparr>
   = Inr [(''move room1 -> room2'', \<lparr>dog_pos = ''room2'', remaining_items = {|''item2''|}\<rparr>),
          (''move room1 -> room3'', \<lparr>dog_pos = ''room3'', remaining_items = {|''item1'', ''item2''|}\<rparr>)]
   \<and> {|''item2''|} |\<subseteq>| {|''item1'', ''item2''|}"
proof -
  have m: "(''move room1 -> room2'', \<lparr>dog_pos = ''room2'', remaining_items = {|''item2''|}\<rparr>)
      \<in> set [(''move room1 -> room2'', \<lparr>dog_pos = ''room2'', remaining_items = {|''item2''|}\<rparr>),
          (''move room1 -> room3'', \<lparr>dog_pos = ''room3'', remaining_items = {|''item1'', ''item2''|}\<rparr>)]"
    by simp
  from remaining_items_shrink [OF possible_actions_room1 m] possible_actions_room1 show ?thesis by simp
qed

text \<open>
  C5 (auto-collect postcondition), as amended. For every state \<open>s\<close> whose remaining items
  are all keys of \<^verbatim>\<open>ITEM_START_POS\<close>, let \<open>F\<close> be the remaining items whose home is
  \<open>dog_pos s\<close>. If \<open>F\<close> is empty, \<open>auto_pickup\<close> returns \<open>(s, [])\<close>; otherwise it returns a
  state at the same location whose remaining items are those of \<open>s\<close> without \<open>F\<close>,
  together with a duplicate-free list of exactly the items of \<open>F\<close>.
\<close>

theorem auto_pickup_postcondition:
  assumes "remaining_items s |\<subseteq>| fmdom (item_start_pos w)"
  shows "let F = ffilter (\<lambda>it. fmlookup (item_start_pos w) it = Some (dog_pos s)) (remaining_items s)
         in (F = {||} \<longrightarrow> auto_pickup w s = Inr (s, [])) \<and>
            (F \<noteq> {||} \<longrightarrow>
               (\<exists>s' found. auto_pickup w s = Inr (s', found) \<and> dog_pos s' = dog_pos s \<and>
                   remaining_items s' = remaining_items s |-| F \<and>
                   fset_of_list found = F \<and> distinct found))"
proof -
  have k: "known_items w s" using assms by (simp add: known_items_def)
  from auto_pickup_known [OF k] show ?thesis
    unfolding Let_def items_at_def by (auto simp: fset_of_list_empty_iff)
qed

theorem auto_pickup_postcondition_witness:
  "{|''item1'', ''item2''|} |\<subseteq>| fmdom (item_start_pos shipped) \<and>
   (\<exists>s' found. auto_pickup shipped \<lparr>dog_pos = ''room2'', remaining_items = {|''item1'', ''item2''|}\<rparr> = Inr (s', found) \<and>
      dog_pos s' = ''room2'' \<and> remaining_items s' = {|''item2''|} \<and> fset_of_list found = {|''item1''|})"
proof -
  have h: "remaining_items \<lparr>dog_pos = ''room2'', remaining_items = {|''item1'', ''item2''|}\<rparr>
             |\<subseteq>| fmdom (item_start_pos shipped)"
    by code_simp
  have F: "ffilter (\<lambda>it. fmlookup (item_start_pos shipped) it = Some (dog_pos \<lparr>dog_pos = ''room2'', remaining_items = {|''item1'', ''item2''|}\<rparr>))
       (remaining_items \<lparr>dog_pos = ''room2'', remaining_items = {|''item1'', ''item2''|}\<rparr>) = {|''item1''|}"
    by code_simp
  have D: "{|''item1'', ''item2''|} |-| {|''item1''|} = {|''item2''|}" by code_simp
  from auto_pickup_postcondition [OF h] h show ?thesis
    unfolding Let_def F using D by auto
qed

text \<open>
  The claim as stated ranges over every state. A state may hold an item that is not a
  key of \<^verbatim>\<open>ITEM_START_POS\<close>: then no remaining item has its home in the room, and
  \<open>auto_pickup\<close> raises \<^verbatim>\<open>KeyError\<close> instead of returning the state unchanged.
\<close>

theorem auto_pickup_unknown_item_counterexample:
  "items_at shipped ''room1'' {|''item3''|} = {||} \<and>
   auto_pickup shipped \<lparr>dog_pos = ''room1'', remaining_items = {|''item3''|}\<rparr> = Inl KeyError"
  by code_simp

text \<open>
  C6 (auto-collect idempotence). For every state \<open>s\<close>, if \<open>auto_pickup s\<close> returns
  \<open>(s1, f1)\<close>, then \<open>auto_pickup s1\<close> returns \<open>s1\<close> itself and an empty list.
\<close>

theorem auto_pickup_idempotent:
  assumes "auto_pickup w s = Inr (s1, f1)"
  shows "auto_pickup w s1 = Inr (s1, [])"
proof -
  let ?F = "items_at w (dog_pos s) (remaining_items s)"
  from auto_pickup_state [OF assms]
  have k: "known_items w s" and s1: "s1 = s\<lparr>remaining_items := remaining_items s |-| ?F\<rparr>"
    by simp_all
  have k1: "known_items w s1" using k by (auto simp: s1 known_items_def)
  have e: "items_at w (dog_pos s1) (remaining_items s1) = {||}"
    by (simp add: s1 items_at_idem)
  from auto_pickup_known [OF k1] e show ?thesis by (auto simp: fset_of_list_empty_iff)
qed

theorem auto_pickup_idempotent_witness:
  "auto_pickup shipped \<lparr>dog_pos = ''room2'', remaining_items = {|''item1'', ''item2''|}\<rparr>
     = Inr (\<lparr>dog_pos = ''room2'', remaining_items = {|''item2''|}\<rparr>, [''item1''])
   \<and> auto_pickup shipped \<lparr>dog_pos = ''room2'', remaining_items = {|''item2''|}\<rparr>
     = Inr (\<lparr>dog_pos = ''room2'', remaining_items = {|''item2''|}\<rparr>, [])"
  using auto_pickup_idempotent [OF auto_pickup_room2] auto_pickup_room2 by simp

text \<open>
  C7 (expansion shape and order), as amended. For every state \<open>s\<close> whose location is a
  key of the graph, with neighbour list \<open>ns\<close>, and whose remaining items are all keys of
  \<^verbatim>\<open>ITEM_START_POS\<close>, \<open>possible_actions s\<close> returns exactly one pair per neighbour, in
  the order of \<open>ns\<close>: the \<open>i\<close>-th label is the move from \<open>dog_pos s\<close> to \<open>ns ! i\<close>, and the
  \<open>i\<close>-th state is the state \<open>auto_pickup\<close> returns for the state at \<open>ns ! i\<close> with the
  remaining items of \<open>s\<close>.
\<close>

theorem possible_actions_shape:
  assumes "fmlookup (graph w) (dog_pos s) = Some ns"
    and "remaining_items s |\<subseteq>| fmdom (item_start_pos w)"
  shows "\<exists>acts. possible_actions w s = Inr acts \<and> length acts = length ns \<and>
           (\<forall>i<length ns. fst (acts ! i) = move_label (dog_pos s) (ns ! i) \<and>
              (\<exists>found. auto_pickup w \<lparr>dog_pos = ns ! i, remaining_items = remaining_items s\<rparr>
                          = Inr (snd (acts ! i), found)))"
proof -
  have k: "known_items w s" using assms(2) by (simp add: known_items_def)
  let ?acts = "map (\<lambda>n. (move_label (dog_pos s) n, moved_state w s n)) ns"
  have pa: "possible_actions w s = Inr ?acts"
    using assms(1) k by (simp add: possible_actions_result)
  have "\<exists>found. auto_pickup w \<lparr>dog_pos = ns ! i, remaining_items = remaining_items s\<rparr>
                  = Inr (snd (?acts ! i), found)" if "i < length ns" for i
  proof -
    have "s\<lparr>dog_pos := ns ! i\<rparr> = \<lparr>dog_pos = ns ! i, remaining_items = remaining_items s\<rparr>"
      by simp
    with auto_pickup_moved [OF k, of "ns ! i"] that show ?thesis by simp
  qed
  with pa show ?thesis by simp
qed

theorem possible_actions_shape_witness:
  "fmlookup (graph shipped) ''room1'' = Some [''room2'', ''room3''] \<and>
   {|''item1'', ''item2''|} |\<subseteq>| fmdom (item_start_pos shipped) \<and>
   (\<exists>acts. possible_actions shipped \<lparr>dog_pos = ''room1'', remaining_items = {|''item1'', ''item2''|}\<rparr> = Inr acts \<and>
      length acts = 2 \<and> fst (acts ! 0) = move_label ''room1'' ''room2'' \<and>
      fst (acts ! 1) = move_label ''room1'' ''room3'')"
proof -
  have g: "fmlookup (graph shipped) (dog_pos \<lparr>dog_pos = ''room1'', remaining_items = {|''item1'', ''item2''|}\<rparr>)
             = Some [''room2'', ''room3'']"
    by code_simp
  have h: "remaining_items \<lparr>dog_pos = ''room1'', remaining_items = {|''item1'', ''item2''|}\<rparr>
             |\<subseteq>| fmdom (item_start_pos shipped)"
    by code_simp
  from possible_actions_shape [OF g h] g h show ?thesis by auto
qed

text \<open>
  The claim as stated asks only that the location be a key of the graph. With an item
  that is not a key of \<^verbatim>\<open>ITEM_START_POS\<close> among the remaining ones, the first
  \<open>auto_pickup\<close> raises \<^verbatim>\<open>KeyError\<close> and \<open>possible_actions\<close> emits nothing.
\<close>

theorem possible_actions_unknown_item_counterexample:
  "fmlookup (graph shipped) (dog_pos \<lparr>dog_pos = ''room1'', remaining_items = {|''item3''|}\<rparr>)
      = Some [''room2'', ''room3'']
   \<and> possible_actions shipped \<lparr>dog_pos = ''room1'', remaining_items = {|''item3''|}\<rparr> = Inl KeyError"
  by code_simp

section \<open>Legal paths, distances and the reachable states\<close>

lemma legal_path_Cons:
  "legal_path w s ((a, t) # rest) \<longleftrightarrow> transition w s a t \<and> legal_path w t rest"
  by (auto simp: transition_def split: sum.splits)

declare legal_path.simps(2) [simp del]
declare legal_path_Cons [simp]

lemma legal_path_append:
  "legal_path w s (ts @ us) \<longleftrightarrow> legal_path w s ts \<and> legal_path w (end_state s ts) us"
proof (induction ts arbitrary: s)
  case Nil
  show ?case by simp
next
  case (Cons tr ts)
  obtain a t where tr: "tr = (a, t)" by (cases tr)
  show ?case unfolding tr by (simp add: Cons.IH)
qed

lemma end_state_append: "end_state s (ts @ us) = end_state (end_state s ts) us"
  by (induction ts arbitrary: s) auto

lemma reach_in_0 [simp]: "reach_in w s 0 t \<longleftrightarrow> t = s"
  by (auto simp: reach_in_def)

lemma reach_in_step:
  assumes "reach_in w s n u" and "transition w u a t"
  shows "reach_in w s (Suc n) t"
proof -
  from assms(1) obtain ts where ts: "legal_path w s ts" "length ts = n" "end_state s ts = u"
    by (auto simp: reach_in_def)
  have "legal_path w s (ts @ [(a, t)])"
    using ts assms(2) by (simp add: legal_path_append)
  moreover have "end_state s (ts @ [(a, t)]) = t" by (simp add: end_state_append)
  ultimately show ?thesis using ts(2) unfolding reach_in_def
    by (intro exI [of _ "ts @ [(a, t)]"]) simp
qed

lemma reach_in_SucD:
  assumes "reach_in w s (Suc n) t"
  shows "\<exists>u a. reach_in w s n u \<and> transition w u a t"
proof -
  from assms obtain ts where ts: "legal_path w s ts" "length ts = Suc n" "end_state s ts = t"
    by (auto simp: reach_in_def)
  from ts(2) obtain us tr where sp: "ts = us @ [tr]"
    by (metis length_Suc_conv_rev)
  obtain a t' where tr: "tr = (a, t')" by (cases tr)
  from ts(1) have l: "legal_path w s us" and st: "transition w (end_state s us) a t'"
    by (simp_all add: sp tr legal_path_append)
  have "t' = t" using ts(3) by (simp add: sp tr end_state_append)
  moreover have "reach_in w s n (end_state s us)"
    using l ts(2) by (auto simp: reach_in_def sp)
  ultimately show ?thesis using st by blast
qed

lemma distance_le: "reach_in w s n t \<Longrightarrow> distance w s t \<le> n"
  unfolding distance_def by (rule Least_le)

lemma reach_in_distance: "reach_in w s n t \<Longrightarrow> reach_in w s (distance w s t) t"
  unfolding distance_def by (rule LeastI)

lemma distance_self [simp]: "distance w s s = 0"
  using distance_le [of w s 0 s] by simp

lemma transition_props:
  assumes "transition w s a t"
  shows "\<exists>ns n. fmlookup (graph w) (dog_pos s) = Some ns \<and> n \<in> set ns \<and>
           a = move_label (dog_pos s) n \<and> t = moved_state w s n"
proof -
  from assms obtain acts where pa: "possible_actions w s = Inr acts" and m: "(a, t) \<in> set acts"
    by (auto simp: transition_def)
  from possible_actions_InrD [OF pa] obtain ns
    where g: "fmlookup (graph w) (dog_pos s) = Some ns"
      and acts: "acts = map (\<lambda>n. (move_label (dog_pos s) n, moved_state w s n)) ns" by blast
  from m obtain n where "n \<in> set ns" "a = move_label (dog_pos s) n" "t = moved_state w s n"
    unfolding acts by auto
  with g show ?thesis by blast
qed

lemma move_label_inj: "move_label p n = move_label p n' \<Longrightarrow> n = n'"
  by (simp add: move_label_def)

lemma transition_first_match:
  assumes "possible_actions w s = Inr acts" and "(a, t) \<in> set acts"
  shows "\<exists>a' rest. filter (\<lambda>(b, ns). Some b = Some a) acts = (a', t) # rest"
proof -
  from possible_actions_InrD [OF assms(1)] obtain ns
    where acts: "acts = map (\<lambda>n. (move_label (dog_pos s) n, moved_state w s n)) ns" by blast
  from assms(2) obtain n where n: "a = move_label (dog_pos s) n" "t = moved_state w s n"
    unfolding acts by auto
  have all: "x = (a, t)" if "x \<in> set (filter (\<lambda>(b, ns). Some b = Some a) acts)" for x
  proof -
    from that obtain n' where "x = (move_label (dog_pos s) n', moved_state w s n')"
      and "move_label (dog_pos s) n' = a"
      unfolding acts by auto
    with n move_label_inj [of "dog_pos s" n' n] show ?thesis by simp
  qed
  have ne: "filter (\<lambda>(b, ns). Some b = Some a) acts \<noteq> []"
    using assms(2) by (auto simp: filter_empty_conv)
  then obtain x rest where f: "filter (\<lambda>(b, ns). Some b = Some a) acts = x # rest"
    by (cases "filter (\<lambda>(b, ns). Some b = Some a) acts") auto
  then have "x \<in> set (filter (\<lambda>(b, ns). Some b = Some a) acts)" by simp
  from all [OF this] f show ?thesis by blast
qed

lemma execute_legal_path:
  "legal_path w s ts \<Longrightarrow> execute_plan w s (map (Some \<circ> fst) ts) = Inr (end_state s ts)"
proof (induction ts arbitrary: s)
  case Nil
  show ?case by simp
next
  case (Cons tr ts)
  obtain a t where tr: "tr = (a, t)" by (cases tr)
  from Cons.prems obtain acts where pa: "possible_actions w s = Inr acts"
    and m: "(a, t) \<in> set acts" and l: "legal_path w t ts"
    by (auto simp: tr transition_def)
  from transition_first_match [OF pa m] obtain a' rest
    where "filter (\<lambda>(b, ns). Some b = Some a) acts = (a', t) # rest" by blast
  with pa Cons.IH [OF l] show ?case by (simp add: tr)
qed

lemma reachable_bounds:
  assumes "reach_in w s n t"
  shows "dog_pos t \<in> insert (dog_pos s) (\<Union>(set ` fmran' (graph w)))
       \<and> remaining_items t |\<subseteq>| remaining_items s"
  using assms
proof (induction n arbitrary: t)
  case 0
  then show ?case by simp
next
  case (Suc n)
  from reach_in_SucD [OF Suc.prems] obtain u a
    where u: "reach_in w s n u" and tr: "transition w u a t" by blast
  from transition_props [OF tr] obtain ns m
    where g: "fmlookup (graph w) (dog_pos u) = Some ns" and m: "m \<in> set ns"
      and t: "t = moved_state w u m" by blast
  have "dog_pos t \<in> \<Union>(set ` fmran' (graph w))"
    using g m by (auto simp: t moved_state_def intro: fmran'I)
  moreover have "remaining_items t |\<subseteq>| remaining_items s"
    using Suc.IH [OF u] remaining_moved_state [of w u m] by (auto simp: t)
  ultimately show ?case by simp
qed

lemma finite_states:
  assumes "finite A"
  shows "finite {u::State. dog_pos u \<in> A \<and> remaining_items u |\<subseteq>| R}"
proof -
  have "{u::State. dog_pos u \<in> A \<and> remaining_items u |\<subseteq>| R}
          \<subseteq> (\<lambda>(p, r). \<lparr>dog_pos = p, remaining_items = r\<rparr>) ` (A \<times> fset (fPow R))"
  proof
    fix u :: State
    assume "u \<in> {u. dog_pos u \<in> A \<and> remaining_items u |\<subseteq>| R}"
    then have "(dog_pos u, remaining_items u) \<in> A \<times> fset (fPow R)" by simp
    moreover have "u = (\<lambda>(p, r). \<lparr>dog_pos = p, remaining_items = r\<rparr>) (dog_pos u, remaining_items u)"
      by simp
    ultimately show "u \<in> (\<lambda>(p, r). \<lparr>dog_pos = p, remaining_items = r\<rparr>) ` (A \<times> fset (fPow R))"
      by (rule image_eqI [rotated])
  qed
  moreover have "finite (A \<times> fset (fPow R))" using assms by simp
  ultimately show ?thesis by (meson finite_imageI finite_subset)
qed

lemma finite_reachable: "finite (reachable w s)"
proof -
  have "finite (\<Union>(set ` fmran' (graph w)))"
    by (simp add: fmran'_alt_def)
  then have "finite (insert (dog_pos s) (\<Union>(set ` fmran' (graph w))))" by simp
  from finite_states [OF this]
  have "finite {u::State. dog_pos u \<in> insert (dog_pos s) (\<Union>(set ` fmran' (graph w)))
                  \<and> remaining_items u |\<subseteq>| remaining_items s}" .
  moreover have "reachable w s \<subseteq> {u::State. dog_pos u \<in> insert (dog_pos s) (\<Union>(set ` fmran' (graph w)))
                  \<and> remaining_items u |\<subseteq>| remaining_items s}"
  proof
    fix t assume "t \<in> reachable w s"
    then obtain n where "reach_in w s n t" by (auto simp: reachable_def)
    from reachable_bounds [OF this]
    show "t \<in> {u::State. dog_pos u \<in> insert (dog_pos s) (\<Union>(set ` fmran' (graph w)))
                  \<and> remaining_items u |\<subseteq>| remaining_items s}" by simp
  qed
  ultimately show ?thesis by (rule rev_finite_subset)
qed

section \<open>The loops of the planner\<close>

lemma visit_result:
  "\<exists>new prev' pa'.
      visit cur acts (q, prev, pa) = (q @ new, prev', pa') \<and> distinct new \<and>
      set new = snd ` set acts - dom prev \<and>
      dom prev' = dom prev \<union> set new \<and>
      (\<forall>u \<in> dom prev. prev' u = prev u \<and> pa' u = pa u) \<and>
      (\<forall>u \<in> set new. prev' u = Some (Some cur) \<and> (\<exists>a. pa' u = Some (Some a) \<and> (a, u) \<in> set acts))"
proof (induction acts arbitrary: q prev pa)
  case Nil
  show ?case by simp
next
  case (Cons x acts)
  obtain a nxt where x: "x = (a, nxt)" by (cases x)
  show ?case
  proof (cases "prev nxt = None")
    case True
    let ?prev = "prev(nxt \<mapsto> Some cur)" and ?pa = "pa(nxt \<mapsto> Some a)"
    from Cons.IH [of "q @ [nxt]" ?prev ?pa] obtain new prev' pa'
      where v: "visit cur acts (q @ [nxt], ?prev, ?pa) = ((q @ [nxt]) @ new, prev', pa')"
        and d: "distinct new"
        and sn: "set new = snd ` set acts - dom ?prev"
        and dp: "dom prev' = dom ?prev \<union> set new"
        and old: "\<forall>u \<in> dom ?prev. prev' u = ?prev u \<and> pa' u = ?pa u"
        and nw: "\<forall>u \<in> set new. prev' u = Some (Some cur) \<and> (\<exists>a. pa' u = Some (Some a) \<and> (a, u) \<in> set acts)"
      by blast
    have nd: "nxt \<notin> dom prev" using True by auto
    have 1: "visit cur (x # acts) (q, prev, pa) = (q @ (nxt # new), prev', pa')"
      using True v by (simp add: x)
    have 2: "distinct (nxt # new)" using d sn by auto
    have 3: "set (nxt # new) = snd ` set (x # acts) - dom prev"
      using sn nd by (auto simp: x)
    have 4: "dom prev' = dom prev \<union> set (nxt # new)" using dp by auto
    have 5: "\<forall>u \<in> dom prev. prev' u = prev u \<and> pa' u = pa u"
    proof
      fix u assume u: "u \<in> dom prev"
      then have "u \<noteq> nxt" using nd by auto
      moreover have "u \<in> dom ?prev" using u by auto
      ultimately show "prev' u = prev u \<and> pa' u = pa u" using old by (metis fun_upd_other)
    qed
    have 6: "\<forall>u \<in> set (nxt # new). prev' u = Some (Some cur) \<and> (\<exists>b. pa' u = Some (Some b) \<and> (b, u) \<in> set (x # acts))"
    proof
      fix u assume "u \<in> set (nxt # new)"
      then consider "u = nxt" | "u \<in> set new" by auto
      then show "prev' u = Some (Some cur) \<and> (\<exists>b. pa' u = Some (Some b) \<and> (b, u) \<in> set (x # acts))"
      proof cases
        case 1
        have "nxt \<in> dom ?prev" by simp
        with old have "prev' nxt = ?prev nxt \<and> pa' nxt = ?pa nxt" by blast
        then show ?thesis by (auto simp: 1 x)
      next
        case 2
        with nw show ?thesis by auto
      qed
    qed
    from 1 2 3 4 5 6 show ?thesis by blast
  next
    case False
    from Cons.IH [of q prev pa] obtain new prev' pa'
      where v: "visit cur acts (q, prev, pa) = (q @ new, prev', pa')"
        and d: "distinct new"
        and sn: "set new = snd ` set acts - dom prev"
        and dp: "dom prev' = dom prev \<union> set new"
        and old: "\<forall>u \<in> dom prev. prev' u = prev u \<and> pa' u = pa u"
        and nw: "\<forall>u \<in> set new. prev' u = Some (Some cur) \<and> (\<exists>a. pa' u = Some (Some a) \<and> (a, u) \<in> set acts)"
      by blast
    have ind: "nxt \<in> dom prev" using False by auto
    from False obtain y where y: "prev nxt = Some y" by auto
    have 1: "visit cur (x # acts) (q, prev, pa) = (q @ new, prev', pa')"
      using v by (simp add: x y)
    have 3: "set new = snd ` set (x # acts) - dom prev"
      using sn ind by (auto simp: x)
    have 6: "\<forall>u \<in> set new. prev' u = Some (Some cur) \<and> (\<exists>b. pa' u = Some (Some b) \<and> (b, u) \<in> set (x # acts))"
      using nw by auto
    from 1 d 3 dp old 6 show ?thesis by blast
  qed
qed

lemma bfs_invD:
  assumes "bfs_inv w start q prev pa"
  shows "prev start = Some None"
    and "set q \<subseteq> dom prev"
    and "dom prev \<subseteq> reachable w start"
    and "\<And>u. prev u = Some None \<Longrightarrow> u = start"
    and "\<And>u p. prev u = Some (Some p) \<Longrightarrow> p \<in> dom prev"
    and "\<And>u p. prev u = Some (Some p) \<Longrightarrow> distance w start u = Suc (distance w start p)"
    and "\<And>u p. prev u = Some (Some p) \<Longrightarrow> \<exists>a. pa u = Some (Some a) \<and> transition w p a u"
    and "sorted (map (distance w start) q)"
    and "\<And>u. u \<in> set q \<Longrightarrow> distance w start u \<le> Suc (distance w start (hd q))"
    and "\<And>u. u \<in> dom prev \<Longrightarrow> u \<notin> set q \<Longrightarrow> \<not> is_goal u"
    and "\<And>u. u \<in> dom prev \<Longrightarrow> u \<notin> set q \<Longrightarrow>
            \<exists>acts. possible_actions w u = Inr acts \<and> snd ` set acts \<subseteq> dom prev"
  using assms unfolding bfs_inv_def by blast+

lemma expanded_successor:
  assumes inv: "bfs_inv w start q prev pa"
    and u: "u \<in> dom prev" "u \<notin> set q" and tr: "transition w u a v"
  shows "v \<in> dom prev"
proof -
  from bfs_invD(11) [OF inv u] obtain acts
    where "possible_actions w u = Inr acts" "snd ` set acts \<subseteq> dom prev" by blast
  moreover from tr obtain acts' where "possible_actions w u = Inr acts'" "(a, v) \<in> set acts'"
    by (auto simp: transition_def)
  ultimately show ?thesis by force
qed

lemma queue_head_least:
  assumes "bfs_inv w start (cur # rest) prev pa" and "u \<in> set (cur # rest)"
  shows "distance w start cur \<le> distance w start u"
  using bfs_invD(8) [OF assms(1)] assms(2) by auto

lemma level_complete:
  assumes inv: "bfs_inv w start (cur # rest) prev pa"
  shows "reach_in w start n v \<Longrightarrow> n \<le> distance w start cur \<Longrightarrow> v \<in> dom prev"
proof (induction n arbitrary: v)
  case 0
  then show ?case using bfs_invD(1) [OF inv] by auto
next
  case (Suc n)
  from reach_in_SucD [OF Suc.prems(1)] obtain u a
    where u: "reach_in w start n u" and tr: "transition w u a v" by blast
  have ud: "u \<in> dom prev" using Suc.IH [OF u] Suc.prems(2) by simp
  have "distance w start u < distance w start cur"
    using distance_le [OF u] Suc.prems(2) by simp
  then have "u \<notin> set (cur # rest)"
    using queue_head_least [OF inv, of u] by auto
  from expanded_successor [OF inv ud this tr] show ?case .
qed

lemma exhausted_complete:
  assumes inv: "bfs_inv w start [] prev pa"
  shows "reach_in w start n v \<Longrightarrow> v \<in> dom prev"
proof (induction n arbitrary: v)
  case 0
  then show ?case using bfs_invD(1) [OF inv] by auto
next
  case (Suc n)
  from reach_in_SucD [OF Suc.prems(1)] obtain u a
    where u: "reach_in w start n u" and tr: "transition w u a v" by blast
  have ud: "u \<in> dom prev" using Suc.IH [OF u] .
  from expanded_successor [OF inv ud _ tr] show ?case by simp
qed

lemma exhausted_no_goal:
  assumes inv: "bfs_inv w start [] prev pa" and "u \<in> reachable w start"
  shows "\<not> is_goal u"
proof -
  from assms(2) obtain n where "reach_in w start n u" by (auto simp: reachable_def)
  from exhausted_complete [OF inv this] have "u \<in> dom prev" .
  from bfs_invD(10) [OF inv this] show ?thesis by simp
qed

lemma head_goal_optimal:
  assumes inv: "bfs_inv w start (cur # rest) prev pa"
    and r: "reach_in w start n g" and g: "is_goal g"
  shows "distance w start cur \<le> n"
proof (rule ccontr)
  assume "\<not> distance w start cur \<le> n"
  then have lt: "n < distance w start cur" by simp
  then have gd: "g \<in> dom prev" using level_complete [OF inv r] by simp
  have "distance w start g < distance w start cur"
    using distance_le [OF r] lt by simp
  then have "g \<notin> set (cur # rest)"
    using queue_head_least [OF inv, of g] by auto
  from bfs_invD(10) [OF inv gd this] g show False by simp
qed

lemma bfs_inv_init: "bfs_inv w start [start] [start \<mapsto> None] [start \<mapsto> None]"
proof -
  have "start \<in> reachable w start"
    unfolding reachable_def using reach_in_0 [of w start start] by blast
  then show ?thesis
    unfolding bfs_inv_def by (auto split: if_splits)
qed

lemma bfs_inv_step:
  assumes inv: "bfs_inv w start (cur # rest) prev pa"
    and ng: "\<not> is_goal cur"
    and acts: "possible_actions w cur = Inr acts"
    and v: "visit cur acts (rest, prev, pa) = (q', prev', pa')"
  shows "bfs_inv w start q' prev' pa'"
    and "card (reachable w start - dom prev') + length q'
           < card (reachable w start - dom prev) + length (cur # rest)"
proof -
  let ?d = "distance w start"
  from visit_result [of cur acts rest prev pa] v obtain new
    where q': "q' = rest @ new" and dn: "distinct new"
      and sn: "set new = snd ` set acts - dom prev"
      and dp: "dom prev' = dom prev \<union> set new"
      and old: "\<And>u. u \<in> dom prev \<Longrightarrow> prev' u = prev u \<and> pa' u = pa u"
      and nw: "\<And>u. u \<in> set new \<Longrightarrow>
                 prev' u = Some (Some cur) \<and> (\<exists>a. pa' u = Some (Some a) \<and> (a, u) \<in> set acts)"
    by auto
  have curd: "cur \<in> dom prev" using bfs_invD(2) [OF inv] by simp
  have startd: "start \<in> dom prev" using bfs_invD(1) [OF inv] by auto
  have curr: "reach_in w start (?d cur) cur"
  proof -
    from curd bfs_invD(3) [OF inv] obtain n where "reach_in w start n cur"
      by (auto simp: reachable_def)
    then show ?thesis by (rule reach_in_distance)
  qed
  have new_tr: "\<exists>a. pa' u = Some (Some a) \<and> transition w cur a u" if "u \<in> set new" for u
    using nw [OF that] acts by (auto simp: transition_def)
  have new_reach: "reach_in w start (Suc (?d cur)) u" if "u \<in> set new" for u
  proof -
    from new_tr [OF that] obtain a where "transition w cur a u" by blast
    from reach_in_step [OF curr this] show ?thesis .
  qed
  have new_dist: "?d u = Suc (?d cur)" if "u \<in> set new" for u
  proof -
    have le: "?d u \<le> Suc (?d cur)" using distance_le [OF new_reach [OF that]] .
    have "\<not> ?d u \<le> ?d cur"
    proof
      assume "?d u \<le> ?d cur"
      from level_complete [OF inv reach_in_distance [OF new_reach [OF that]] this]
      have "u \<in> dom prev" .
      with that sn show False by auto
    qed
    with le show ?thesis by simp
  qed
  have c1: "prev' start = Some None"
    using old [OF startd] bfs_invD(1) [OF inv] by simp
  have c2: "set q' \<subseteq> dom prev'"
    using bfs_invD(2) [OF inv] by (auto simp: q' dp)
  have c3: "dom prev' \<subseteq> reachable w start"
  proof
    fix u assume "u \<in> dom prev'"
    then consider "u \<in> dom prev" | "u \<in> set new" unfolding dp by auto
    then show "u \<in> reachable w start"
    proof cases
      case 1 then show ?thesis using bfs_invD(3) [OF inv] by auto
    next
      case 2 from new_reach [OF this] show ?thesis unfolding reachable_def by blast
    qed
  qed
  have c4: "\<forall>u. prev' u = Some None \<longrightarrow> u = start"
  proof (intro allI impI)
    fix u assume that: "prev' u = Some None"
    show "u = start"
    proof -
    from that have "u \<in> dom prev'" by auto
    then consider "u \<in> dom prev" | "u \<in> set new" unfolding dp by auto
    then show ?thesis
    proof cases
      case 1
      with old [OF 1] that have "prev u = Some None" by simp
      then show ?thesis by (rule bfs_invD(4) [OF inv])
    next
      case 2
      with nw [OF 2] that show ?thesis by simp
    qed
    qed
  qed
  have c5: "\<forall>u p. prev' u = Some (Some p) \<longrightarrow>
        p \<in> dom prev' \<and> ?d u = Suc (?d p) \<and> (\<exists>a. pa' u = Some (Some a) \<and> transition w p a u)"
  proof (intro allI impI)
    fix u p assume that: "prev' u = Some (Some p)"
    show "p \<in> dom prev' \<and> ?d u = Suc (?d p) \<and> (\<exists>a. pa' u = Some (Some a) \<and> transition w p a u)"
    proof -
    from that have "u \<in> dom prev'" by auto
    then consider "u \<in> dom prev" | "u \<in> set new" unfolding dp by auto
    then show ?thesis
    proof cases
      case 1
      with old [OF 1] that have pu: "prev u = Some (Some p)" and "pa' u = pa u" by simp_all
      with bfs_invD(5) [OF inv pu] bfs_invD(6) [OF inv pu] bfs_invD(7) [OF inv pu]
      show ?thesis by (auto simp: dp)
    next
      case 2
      from nw [OF 2] that have "p = cur" by simp
      with new_dist [OF 2] new_tr [OF 2] curd show ?thesis by (auto simp: dp)
    qed
    qed
  qed
  have rest_le: "?d u \<le> Suc (?d cur)" if "u \<in> set rest" for u
    using bfs_invD(9) [OF inv, of u] that by simp
  have rest_ge: "?d cur \<le> ?d u" if "u \<in> set rest" for u
    using queue_head_least [OF inv, of u] that by simp
  have c6: "sorted (map ?d q')"
  proof -
    have "sorted (map ?d rest)" using bfs_invD(8) [OF inv] by simp
    moreover have "sorted (map ?d new)"
    proof -
      have "map ?d new = replicate (length new) (Suc (?d cur))"
        using new_dist by (auto simp: map_replicate_const [symmetric] intro: map_cong)
      then show ?thesis by (simp add: sorted_replicate)
    qed
    moreover have "\<forall>x \<in> set (map ?d rest). \<forall>y \<in> set (map ?d new). x \<le> y"
      using rest_le new_dist by auto
    ultimately show ?thesis unfolding q' by (simp add: sorted_append)
  qed
  have c7: "\<forall>u \<in> set q'. ?d u \<le> Suc (?d (hd q'))"
  proof
    fix u assume that: "u \<in> set q'"
    show "?d u \<le> Suc (?d (hd q'))"
    proof -
    have ub: "?d u \<le> Suc (?d cur)"
      using that rest_le new_dist unfolding q' by auto
    have "q' \<noteq> []" using that by auto
    then have "hd q' \<in> set q'" by simp
    then consider "hd q' \<in> set rest" | "hd q' \<in> set new" unfolding q' by auto
    then have "?d cur \<le> ?d (hd q')"
    proof cases
      case 1 from rest_ge [OF this] show ?thesis .
    next
      case 2 from new_dist [OF this] show ?thesis by simp
    qed
    with ub show ?thesis by simp
    qed
  qed
  have c8: "\<forall>u \<in> dom prev' - set q'. \<not> is_goal u \<and>
       (\<exists>acts. possible_actions w u = Inr acts \<and> snd ` set acts \<subseteq> dom prev')"
  proof
    fix u assume that: "u \<in> dom prev' - set q'"
    show "\<not> is_goal u \<and> (\<exists>acts. possible_actions w u = Inr acts \<and> snd ` set acts \<subseteq> dom prev')"
    proof -
    from that have ud: "u \<in> dom prev" and ur: "u \<notin> set rest" unfolding dp q' by auto
    show ?thesis
    proof (cases "u = cur")
      case True
      have "snd ` set acts \<subseteq> dom prev'" unfolding dp sn by auto
      with ng acts True show ?thesis by blast
    next
      case False
      with ur have nq: "u \<notin> set (cur # rest)" by simp
      from bfs_invD(10) [OF inv ud nq] bfs_invD(11) [OF inv ud nq]
      show ?thesis unfolding dp by blast
    qed
    qed
  qed
  from c1 c2 c3 c4 c5 c6 c7 c8 show "bfs_inv w start q' prev' pa'"
    unfolding bfs_inv_def by (intro conjI) assumption+
  have fin: "finite (reachable w start - dom prev)" using finite_reachable by simp
  have sub: "set new \<subseteq> reachable w start - dom prev"
    using c3 sn unfolding dp by auto
  have "reachable w start - dom prev' = (reachable w start - dom prev) - set new"
    unfolding dp by auto
  then have "card (reachable w start - dom prev') = card (reachable w start - dom prev) - card (set new)"
    using sub fin by (simp add: card_Diff_subset finite_subset)
  moreover have "card (set new) = length new" using dn by (rule distinct_card)
  moreover have "card (set new) \<le> card (reachable w start - dom prev)"
    using sub fin by (rule card_mono [rotated])
  ultimately show "card (reachable w start - dom prev') + length q'
           < card (reachable w start - dom prev) + length (cur # rest)"
    unfolding q' by simp
qed

lemma walk_back_result:
  assumes inv: "bfs_inv w start q prev pa"
  shows "u \<in> dom prev \<Longrightarrow>
     \<exists>ts. legal_path w start ts \<and> end_state start ts = u \<and> length ts = distance w start u \<and>
          (\<forall>plan. walk_back prev pa u plan = Some (Inr (plan @ rev (map (Some \<circ> fst) ts))))"
proof (induction "distance w start u" arbitrary: u rule: less_induct)
  case less
  from less.prems obtain x where x: "prev u = Some x" by auto
  show ?case
  proof (cases x)
    case None
    with x have pu: "prev u = Some None" by simp
    then have us: "u = start" by (rule bfs_invD(4) [OF inv])
    have "walk_back prev pa u plan = Some (Inr plan)" for plan
      by (subst walk_back.simps) (simp add: pu)
    then show ?thesis
      by (intro exI [of _ "[]"]) (simp add: us)
  next
    case (Some p)
    with x have pu: "prev u = Some (Some p)" by simp
    from bfs_invD(5) [OF inv pu] have pd: "p \<in> dom prev" .
    from bfs_invD(6) [OF inv pu] have du: "distance w start u = Suc (distance w start p)" .
    from bfs_invD(7) [OF inv pu] obtain a
      where au: "pa u = Some (Some a)" and tr: "transition w p a u" by blast
    from less.hyps [of p] du pd obtain ts
      where l: "legal_path w start ts" and e: "end_state start ts = p"
        and n: "length ts = distance w start p"
        and wb: "\<And>plan. walk_back prev pa p plan = Some (Inr (plan @ rev (map (Some \<circ> fst) ts)))"
      by auto
    have l': "legal_path w start (ts @ [(a, u)])"
      using l e tr by (simp add: legal_path_append)
    have e': "end_state start (ts @ [(a, u)]) = u" by (simp add: end_state_append)
    have n': "length (ts @ [(a, u)]) = distance w start u" using n du by simp
    have "walk_back prev pa u plan = Some (Inr (plan @ rev (map (Some \<circ> fst) (ts @ [(a, u)]))))"
      for plan
      by (subst walk_back.simps) (simp add: pu au wb)
    with l' e' n' show ?thesis by blast
  qed
qed

lemma bfs_loop_correct:
  "bfs_inv w start q prev pa \<Longrightarrow> \<exists>r. bfs_loop w q prev pa = Some r \<and> bfs_post w start r"
proof (induction "card (reachable w start - dom prev) + length q" arbitrary: q prev pa
       rule: less_induct)
  case less
  note inv = less.prems
  show ?case
  proof (cases q)
    case Nil
    have "bfs_loop w q prev pa = Some (Inr None)"
      by (subst bfs_loop.simps) (simp add: Nil)
    moreover have "bfs_post w start (Inr None)"
      using exhausted_no_goal [OF inv [unfolded Nil]] by (simp add: bfs_post_def)
    ultimately show ?thesis by blast
  next
    case (Cons cur rest)
    note inv' = inv [unfolded Cons]
    have curd: "cur \<in> dom prev" using bfs_invD(2) [OF inv'] by simp
    show ?thesis
    proof (cases "is_goal cur")
      case True
      from walk_back_result [OF inv' curd] obtain ts
        where l: "legal_path w start ts" and e: "end_state start ts = cur"
          and n: "length ts = distance w start cur"
          and wb: "walk_back prev pa cur [] = Some (Inr ([] @ rev (map (Some \<circ> fst) ts)))"
        by blast
      have res: "bfs_loop w q prev pa = Some (Inr (Some (map (Some \<circ> fst) ts)))"
        by (subst bfs_loop.simps) (simp add: Cons True wb)
      have opt: "length ts \<le> length ts'"
        if "legal_path w start ts' \<and> is_goal (end_state start ts')" for ts'
      proof -
        from that have "reach_in w start (length ts') (end_state start ts')"
          by (auto simp: reach_in_def)
        from head_goal_optimal [OF inv' this] that n show ?thesis by simp
      qed
      have "bfs_post w start (Inr (Some (map (Some \<circ> fst) ts)))"
        unfolding bfs_post_def using l e True opt by auto
      with res show ?thesis by blast
    next
      case False
      show ?thesis
      proof (cases "possible_actions w cur")
        case (Inl err)
        have res: "bfs_loop w q prev pa = Some (Inl err)"
          by (subst bfs_loop.simps) (simp add: Cons False Inl)
        have "cur \<in> reachable w start" using curd bfs_invD(3) [OF inv'] by auto
        then have "bfs_post w start (Inl err)"
          unfolding bfs_post_def using Inl by auto
        with res show ?thesis by blast
      next
        case (Inr acts)
        obtain q' prev' pa' where v: "visit cur acts (rest, prev, pa) = (q', prev', pa')"
          by (cases "visit cur acts (rest, prev, pa)")
        have res: "bfs_loop w q prev pa = bfs_loop w q' prev' pa'"
          by (subst bfs_loop.simps) (simp add: Cons False Inr v)
        from bfs_inv_step [OF inv' False Inr v]
        have inv2: "bfs_inv w start q' prev' pa'"
          and m: "card (reachable w start - dom prev') + length q'
                   < card (reachable w start - dom prev) + length q"
          by (simp_all add: Cons)
        from less.hyps [OF m inv2] res show ?thesis by simp
      qed
    qed
  qed
qed

lemma bfs_plan_correct: "\<exists>r. bfs_plan w s = Some r \<and> bfs_post w s r"
  unfolding bfs_plan_def by (rule bfs_loop_correct [OF bfs_inv_init])

lemma visit_log_result:
  "\<exists>new prev' pa'.
      visit cur acts (q, prev, pa) = (q @ new, prev', pa') \<and>
      visit_log cur acts (q, prev, pa, enq) = (q @ new, prev', pa', enq @ new)"
proof (induction acts arbitrary: q prev pa enq)
  case Nil
  show ?case by simp
next
  case (Cons x acts)
  obtain a nxt where x: "x = (a, nxt)" by (cases x)
  show ?case
  proof (cases "prev nxt = None")
    case True
    from Cons.IH [of "q @ [nxt]" "prev(nxt \<mapsto> Some cur)" "pa(nxt \<mapsto> Some a)" "enq @ [nxt]"]
    obtain new prev' pa'
      where "visit cur acts (q @ [nxt], prev(nxt \<mapsto> Some cur), pa(nxt \<mapsto> Some a))
               = ((q @ [nxt]) @ new, prev', pa')"
        and "visit_log cur acts (q @ [nxt], prev(nxt \<mapsto> Some cur), pa(nxt \<mapsto> Some a), enq @ [nxt])
               = ((q @ [nxt]) @ new, prev', pa', (enq @ [nxt]) @ new)"
      by blast
    with True have "visit cur (x # acts) (q, prev, pa) = (q @ (nxt # new), prev', pa')"
      and "visit_log cur (x # acts) (q, prev, pa, enq) = (q @ (nxt # new), prev', pa', enq @ (nxt # new))"
      by (simp_all add: x)
    then show ?thesis by blast
  next
    case False
    then obtain y where y: "prev nxt = Some y" by auto
    from Cons.IH [of q prev pa enq] obtain new prev' pa'
      where "visit cur acts (q, prev, pa) = (q @ new, prev', pa')"
        and "visit_log cur acts (q, prev, pa, enq) = (q @ new, prev', pa', enq @ new)"
      by blast
    with y have "visit cur (x # acts) (q, prev, pa) = (q @ new, prev', pa')"
      and "visit_log cur (x # acts) (q, prev, pa, enq) = (q @ new, prev', pa', enq @ new)"
      by (simp_all add: x)
    then show ?thesis by blast
  qed
qed

lemma bfs_loop_log_correct:
  "bfs_inv w start q prev pa \<Longrightarrow> distinct enq \<Longrightarrow> set enq = dom prev \<Longrightarrow>
   \<exists>r h. bfs_loop_log w q prev pa enq = Some (r, h) \<and> bfs_loop w q prev pa = Some r \<and>
         distinct h \<and> set h \<subseteq> reachable w start"
proof (induction "card (reachable w start - dom prev) + length q" arbitrary: q prev pa enq
       rule: less_induct)
  case less
  note inv = less.prems(1) and de = less.prems(2) and se = less.prems(3)
  have sub: "set enq \<subseteq> reachable w start" using se bfs_invD(3) [OF inv] by simp
  show ?case
  proof (cases q)
    case Nil
    have "bfs_loop_log w q prev pa enq = Some (Inr None, enq)"
      by (subst bfs_loop_log.simps) (simp add: Nil)
    moreover have "bfs_loop w q prev pa = Some (Inr None)"
      by (subst bfs_loop.simps) (simp add: Nil)
    ultimately show ?thesis using de sub by blast
  next
    case (Cons cur rest)
    note inv' = inv [unfolded Cons]
    have curd: "cur \<in> dom prev" using bfs_invD(2) [OF inv'] by simp
    show ?thesis
    proof (cases "is_goal cur")
      case True
      from walk_back_result [OF inv' curd] obtain ts :: "(string \<times> State) list"
        where all: "\<forall>plan. walk_back prev pa cur plan = Some (Inr (plan @ rev (map (Some \<circ> fst) ts)))"
        by blast
      from all have wb: "walk_back prev pa cur [] = Some (Inr ([] @ rev (map (Some \<circ> fst) ts)))"
        by (rule spec)
      have "bfs_loop_log w q prev pa enq = Some (Inr (Some (map (Some \<circ> fst) ts)), enq)"
        by (subst bfs_loop_log.simps) (simp add: Cons True wb)
      moreover have "bfs_loop w q prev pa = Some (Inr (Some (map (Some \<circ> fst) ts)))"
        by (subst bfs_loop.simps) (simp add: Cons True wb)
      ultimately show ?thesis using de sub by blast
    next
      case False
      show ?thesis
      proof (cases "possible_actions w cur")
        case (Inl err)
        have "bfs_loop_log w q prev pa enq = Some (Inl err, enq)"
          by (subst bfs_loop_log.simps) (simp add: Cons False Inl)
        moreover have "bfs_loop w q prev pa = Some (Inl err)"
          by (subst bfs_loop.simps) (simp add: Cons False Inl)
        ultimately show ?thesis using de sub by blast
      next
        case (Inr acts)
        from visit_log_result [of cur acts rest prev pa enq] obtain new prev' pa'
          where v: "visit cur acts (rest, prev, pa) = (rest @ new, prev', pa')"
            and vl: "visit_log cur acts (rest, prev, pa, enq) = (rest @ new, prev', pa', enq @ new)"
          by blast
        from visit_result [of cur acts rest prev pa] v
        have dn: "distinct new" and sn: "set new = snd ` set acts - dom prev"
          and dp: "dom prev' = dom prev \<union> set new"
          by auto
        have r1: "bfs_loop_log w q prev pa enq = bfs_loop_log w (rest @ new) prev' pa' (enq @ new)"
          by (subst bfs_loop_log.simps) (simp add: Cons False Inr vl)
        have r2: "bfs_loop w q prev pa = bfs_loop w (rest @ new) prev' pa'"
          by (subst bfs_loop.simps) (simp add: Cons False Inr v)
        from bfs_inv_step [OF inv' False Inr v]
        have inv2: "bfs_inv w start (rest @ new) prev' pa'"
          and m: "card (reachable w start - dom prev') + length (rest @ new)
                   < card (reachable w start - dom prev) + length q"
          by (simp_all add: Cons)
        have de2: "distinct (enq @ new)" using de dn sn se by auto
        have se2: "set (enq @ new) = dom prev'" using se dp by simp
        from less.hyps [OF m inv2 de2 se2] r1 r2 show ?thesis by simp
      qed
    qed
  qed
qed

lemma bfs_plan_log_correct:
  "\<exists>r h. bfs_plan_log w s = Some (r, h) \<and> bfs_plan w s = Some r \<and>
         distinct h \<and> set h \<subseteq> reachable w s"
  unfolding bfs_plan_log_def bfs_plan_def
  by (rule bfs_loop_log_correct [OF bfs_inv_init]) simp_all

section \<open>Closed worlds and the state space\<close>

lemma wf_transition:
  assumes c: "neighbours_closed w" and s: "wf_state w s" and tr: "transition w s a t"
  shows "wf_state w t"
proof -
  from transition_props [OF tr] obtain ns n
    where g: "fmlookup (graph w) (dog_pos s) = Some ns" and n: "n \<in> set ns"
      and t: "t = moved_state w s n" by blast
  from g have "ns |\<in>| fmran (graph w)" by (rule fmranI)
  with c have "list_all (\<lambda>n. n |\<in>| fmdom (graph w)) ns"
    by (auto simp: neighbours_closed_def)
  with n have "n |\<in>| fmdom (graph w)" by (auto simp: list_all_iff)
  moreover have "remaining_items t |\<subseteq>| fmdom (item_start_pos w)"
    using s remaining_moved_state [of w s n] by (auto simp: t wf_state_def)
  ultimately show ?thesis by (simp add: wf_state_def t moved_state_def)
qed

lemma wf_reach_in:
  assumes c: "neighbours_closed w" and s: "wf_state w s"
  shows "reach_in w s n t \<Longrightarrow> wf_state w t"
proof (induction n arbitrary: t)
  case 0
  with s show ?case by simp
next
  case (Suc n)
  from reach_in_SucD [OF Suc.prems] obtain u a
    where u: "reach_in w s n u" and tr: "transition w u a t" by blast
  from wf_transition [OF c Suc.IH [OF u] tr] show ?case .
qed

lemma wf_possible_actions:
  assumes "wf_state w s"
  shows "\<exists>acts. possible_actions w s = Inr acts"
proof -
  from assms obtain ns where "fmlookup (graph w) (dog_pos s) = Some ns"
    by (auto simp: wf_state_def fmlookup_dom_iff)
  moreover have "known_items w s" using assms by (simp add: wf_state_def known_items_def)
  ultimately show ?thesis by (simp add: possible_actions_result)
qed

lemma wf_items_in_room:
  assumes "wf_state w s"
  shows "\<exists>found. items_in_room w room (remaining_items s) = Inr found"
  using assms by (simp add: items_in_room_result wf_state_def)

lemma legal_path_reach_in: "legal_path w s ts \<Longrightarrow> reach_in w s (length ts) (end_state s ts)"
  by (auto simp: reach_in_def)

lemma bfs_plan_wf_no_error:
  assumes c: "neighbours_closed w" and s: "wf_state w s"
  shows "bfs_plan w s \<noteq> Some (Inl e)"
proof
  assume "bfs_plan w s = Some (Inl e)"
  with bfs_plan_correct [of w s] have "bfs_post w s (Inl e)" by auto
  then obtain u where u: "u \<in> reachable w s" and pe: "possible_actions w u = Inl e"
    by (auto simp: bfs_post_def)
  from u obtain n where "reach_in w s n u" by (auto simp: reachable_def)
  from wf_possible_actions [OF wf_reach_in [OF c s this]] pe show False by auto
qed

lemma card_states_le:
  assumes "finite A"
  shows "card {u::State. dog_pos u \<in> A \<and> remaining_items u |\<subseteq>| R} \<le> card A * 2 ^ fcard R"
proof -
  let ?S = "{u::State. dog_pos u \<in> A \<and> remaining_items u |\<subseteq>| R}"
  let ?f = "\<lambda>u::State. (dog_pos u, fset (remaining_items u))"
  have inj: "inj_on ?f ?S"
  proof (rule inj_onI)
    fix u v :: State
    assume "?f u = ?f v"
    then have "dog_pos u = dog_pos v" and "remaining_items u = remaining_items v"
      by (simp_all add: fset_inject)
    then show "u = v" by simp
  qed
  have sub: "?f ` ?S \<subseteq> A \<times> Pow (fset R)"
    by (auto simp: less_eq_fset.rep_eq)
  have fin: "finite (A \<times> Pow (fset R))" using assms by simp
  have "card ?S \<le> card (A \<times> Pow (fset R))"
    using inj sub fin by (rule card_inj_on_le)
  also have "\<dots> = card A * 2 ^ fcard R"
    by (simp add: card_cartesian_product card_Pow fcard.rep_eq)
  finally show ?thesis .
qed

lemma card_reachable_le:
  assumes c: "neighbours_closed w" and s: "wf_state w s"
  shows "card (reachable w s) \<le> fcard (fmdom (graph w)) * 2 ^ fcard (fmdom (item_start_pos w))"
proof -
  let ?S = "{u::State. dog_pos u \<in> fset (fmdom (graph w))
                     \<and> remaining_items u |\<subseteq>| fmdom (item_start_pos w)}"
  have "reachable w s \<subseteq> ?S"
  proof
    fix t assume "t \<in> reachable w s"
    then obtain n where "reach_in w s n t" by (auto simp: reachable_def)
    from wf_reach_in [OF c s this] show "t \<in> ?S" by (simp add: wf_state_def)
  qed
  moreover have "finite ?S" by (rule finite_states) simp
  ultimately have "card (reachable w s) \<le> card ?S" by (rule card_mono [rotated])
  also have "\<dots> \<le> card (fset (fmdom (graph w))) * 2 ^ fcard (fmdom (item_start_pos w))"
    by (rule card_states_le) simp
  finally show ?thesis by (simp add: fcard.rep_eq)
qed

lemma not_wf_no_transition:
  assumes "\<not> wf_state w s"
  shows "\<not> transition w s a t"
proof
  assume "transition w s a t"
  then obtain acts where pa: "possible_actions w s = Inr acts" and m: "(a, t) \<in> set acts"
    by (auto simp: transition_def)
  from possible_actions_InrD [OF pa] obtain ns
    where g: "fmlookup (graph w) (dog_pos s) = Some ns"
      and acts: "acts = map (\<lambda>n. (move_label (dog_pos s) n, moved_state w s n)) ns" by blast
  from m acts have ne: "ns \<noteq> []" by auto
  from g have "dog_pos s |\<in>| fmdom (graph w)" by (rule fmdomI)
  with assms have "\<not> known_items w s" by (simp add: wf_state_def known_items_def)
  with g ne have "possible_actions w s = Inl KeyError" by (simp add: possible_actions_result)
  with pa show False by simp
qed

lemma not_wf_reachable:
  assumes "\<not> wf_state w s"
  shows "reachable w s = {s}"
proof -
  have "t = s" if "reach_in w s n t" for n t
    using that
  proof (induction n arbitrary: t)
    case 0
    then show ?case by simp
  next
    case (Suc n)
    from reach_in_SucD [OF Suc.prems] obtain u a
      where u: "reach_in w s n u" and tr: "transition w u a t" by blast
    from Suc.IH [OF u] have "u = s" .
    with tr not_wf_no_transition [OF assms] show ?case by simp
  qed
  moreover have "reach_in w s 0 s" by simp
  ultimately show ?thesis unfolding reachable_def by blast
qed

lemma card_reachable_le_any:
  assumes c: "neighbours_closed w" and ne: "fmdom (graph w) \<noteq> {||}"
  shows "card (reachable w s) \<le> fcard (fmdom (graph w)) * 2 ^ fcard (fmdom (item_start_pos w))"
proof (cases "wf_state w s")
  case True
  from card_reachable_le [OF c True] show ?thesis .
next
  case False
  have "0 < fcard (fmdom (graph w))" using ne by (metis fcard_0_eq gr0I)
  then have "1 \<le> fcard (fmdom (graph w)) * 2 ^ fcard (fmdom (item_start_pos w))"
    by (simp add: Suc_leI)
  with not_wf_reachable [OF False] show ?thesis by simp
qed

lemma reachable_alt: "reachable w s = {t. \<exists>ts. legal_path w s ts \<and> end_state s ts = t}"
  by (auto simp: reachable_def reach_in_def)

text \<open>Where a neighbour is not a key of the graph, the bound on the reachable states fails.\<close>

lemma open_world_exceeds_bound:
  "\<not> card {t. \<exists>ts. legal_path open_world \<lparr>dog_pos = ''a'', remaining_items = {||}\<rparr> ts \<and>
                 end_state \<lparr>dog_pos = ''a'', remaining_items = {||}\<rparr> ts = t}
       \<le> fcard (fmdom (graph open_world)) * 2 ^ fcard (fmdom (item_start_pos open_world))"
proof -
  let ?s = "\<lparr>dog_pos = ''a'', remaining_items = {||}\<rparr>"
  let ?t = "\<lparr>dog_pos = ''b'', remaining_items = {||}\<rparr>"
  have l: "legal_path open_world ?s [(''move a -> b'', ?t)]" by code_simp
  have "reach_in open_world ?s 0 ?s" by simp
  moreover from legal_path_reach_in [OF l] have "reach_in open_world ?s 1 ?t" by simp
  ultimately have "{?s, ?t} \<subseteq> reachable open_world ?s"
    unfolding reachable_def by blast
  then have "card {?s, ?t} \<le> card (reachable open_world ?s)"
    by (rule card_mono [OF finite_reachable])
  moreover have "card {?s, ?t} = 2" by simp
  ultimately have c2: "2 \<le> card (reachable open_world ?s)" by simp
  have b1: "fcard (fmdom (graph open_world)) * 2 ^ fcard (fmdom (item_start_pos open_world)) = 1"
    by code_simp
  from c2 show ?thesis unfolding reachable_alt [symmetric] b1 by linarith
qed

lemma bfs_plan_goal_start:
  assumes "is_goal s"
  shows "bfs_plan w s = Some (Inr (Some []))"
proof -
  have "walk_back [s \<mapsto> None] [s \<mapsto> None] s [] = Some (Inr [])"
    by (subst walk_back.simps) simp
  then show ?thesis
    unfolding bfs_plan_def by (subst bfs_loop.simps) (simp add: assms)
qed

declare walk_back.simps [code] bfs_loop.simps [code]

lemma shipped_states_plan: "all_return_plans shipped shipped_states"
  by code_simp

section \<open>Claims about the planner\<close>

lemma all_return_plansD:
  "all_return_plans w ss \<Longrightarrow> s \<in> set ss \<Longrightarrow> returns_plan (bfs_plan w s)"
  by (induction ss) auto

lemma returns_planD: "returns_plan r \<Longrightarrow> \<exists>plan. r = Some (Inr (Some plan))"
  by (auto simp: returns_plan_def split: option.splits sum.splits)

lemma fsubset_pair:
  assumes "r |\<subseteq>| {|a, b|}"
  shows "r = {||} \<or> r = {|a|} \<or> r = {|b|} \<or> r = {|a, b|}"
proof -
  from assms have "fset r \<subseteq> {a, b}" by (simp add: less_eq_fset.rep_eq)
  then have "fset r = {} \<or> fset r = {a} \<or> fset r = {b} \<or> fset r = {a, b}" by blast
  then show ?thesis by (metis fset_simps(1) fset_simps(2) fset_inject)
qed

lemma bfs_plan_initial_room1:
  "bfs_plan shipped \<lparr>dog_pos = ''room1'', remaining_items = {|''item1'', ''item2''|}\<rparr> =
     Some (Inr (Some [Some ''move room1 -> room2'', Some ''move room2 -> room3'',
                      Some ''move room3 -> room4'', Some ''move room4 -> room5'']))"
  by code_simp

text \<open>
  C1 (shortest-path optimality). For every world and every start state \<open>s\<close>, if
  \<open>bfs_plan s\<close> returns a plan, then some sequence of legal transitions (each taken from
  \<open>possible_actions\<close> of the state it is applied to) of the plan's length leads from \<open>s\<close>
  to a goal state, and no sequence of legal transitions from \<open>s\<close> to a goal state is
  shorter than the plan.
\<close>

theorem bfs_plan_shortest:
  assumes "bfs_plan w s = Some (Inr (Some plan))"
  shows "(\<exists>ts. legal_path w s ts \<and> is_goal (end_state s ts) \<and> length ts = length plan) \<and>
         (\<forall>ts. legal_path w s ts \<and> is_goal (end_state s ts) \<longrightarrow> length plan \<le> length ts)"
proof -
  from bfs_plan_correct [of w s] assms have "bfs_post w s (Inr (Some plan))" by auto
  then obtain ts where "legal_path w s ts" "is_goal (end_state s ts)" "plan = map (Some \<circ> fst) ts"
    and "\<forall>ts'. legal_path w s ts' \<and> is_goal (end_state s ts') \<longrightarrow> length ts \<le> length ts'"
    by (auto simp: bfs_post_def)
  then show ?thesis by auto
qed

theorem bfs_plan_shortest_witness:
  "(let s = \<lparr>dog_pos = ''room1'', remaining_items = {|''item1'', ''item2''|}\<rparr>;
        plan = [Some ''move room1 -> room2'', Some ''move room2 -> room3'',
                Some ''move room3 -> room4'', Some ''move room4 -> room5''];
        ts = [(''move room1 -> room3'', \<lparr>dog_pos = ''room3'', remaining_items = {|''item1'', ''item2''|}\<rparr>),
              (''move room3 -> room2'', \<lparr>dog_pos = ''room2'', remaining_items = {|''item2''|}\<rparr>),
              (''move room2 -> room3'', \<lparr>dog_pos = ''room3'', remaining_items = {|''item2''|}\<rparr>),
              (''move room3 -> room4'', \<lparr>dog_pos = ''room4'', remaining_items = {|''item2''|}\<rparr>),
              (''move room4 -> room5'', \<lparr>dog_pos = ''room5'', remaining_items = {||}\<rparr>)]
    in bfs_plan shipped s = Some (Inr (Some plan)) \<and> legal_path shipped s ts \<and>
       is_goal (end_state s ts) \<and> length plan \<le> length ts)"
proof -
  let ?s = "\<lparr>dog_pos = ''room1'', remaining_items = {|''item1'', ''item2''|}\<rparr>"
  let ?plan = "[Some ''move room1 -> room2'', Some ''move room2 -> room3'',
                Some ''move room3 -> room4'', Some ''move room4 -> room5'']"
  let ?ts = "[(''move room1 -> room3'', \<lparr>dog_pos = ''room3'', remaining_items = {|''item1'', ''item2''|}\<rparr>),
      (''move room3 -> room2'', \<lparr>dog_pos = ''room2'', remaining_items = {|''item2''|}\<rparr>),
      (''move room2 -> room3'', \<lparr>dog_pos = ''room3'', remaining_items = {|''item2''|}\<rparr>),
      (''move room3 -> room4'', \<lparr>dog_pos = ''room4'', remaining_items = {|''item2''|}\<rparr>),
      (''move room4 -> room5'', \<lparr>dog_pos = ''room5'', remaining_items = {||}\<rparr>)]"
  have l: "legal_path shipped ?s ?ts" by code_simp
  have g: "is_goal (end_state ?s ?ts)" by code_simp
  from bfs_plan_shortest [OF bfs_plan_initial_room1] l g
  have "length ?plan \<le> length ?ts" by blast
  with bfs_plan_initial_room1 l g show ?thesis unfolding Let_def by (intro conjI)
qed

text \<open>
  C2 (plan validity). For every world and every start state \<open>s\<close>, if \<open>bfs_plan s\<close> returns
  a plan, then replaying it from \<open>s\<close> as \<^verbatim>\<open>play_interactive\<close> does (at each step the
  first pair of \<open>possible_actions\<close> whose label is the plan step) never raises, follows
  a legal path with one transition per plan step, and ends in a goal state.
\<close>

theorem bfs_plan_valid:
  assumes "bfs_plan w s = Some (Inr (Some plan))"
  shows "\<exists>ts. legal_path w s ts \<and> length ts = length plan \<and> plan = map (Some \<circ> fst) ts \<and>
              execute_plan w s plan = Inr (end_state s ts) \<and> is_goal (end_state s ts)"
proof -
  from bfs_plan_correct [of w s] assms have "bfs_post w s (Inr (Some plan))" by auto
  then obtain ts where ts: "legal_path w s ts" "is_goal (end_state s ts)" "plan = map (Some \<circ> fst) ts"
    by (auto simp: bfs_post_def)
  from execute_legal_path [OF ts(1)] ts show ?thesis by auto
qed

theorem bfs_plan_valid_witness:
  "bfs_plan shipped \<lparr>dog_pos = ''room1'', remaining_items = {|''item1'', ''item2''|}\<rparr> =
     Some (Inr (Some [Some ''move room1 -> room2'', Some ''move room2 -> room3'',
                      Some ''move room3 -> room4'', Some ''move room4 -> room5''])) \<and>
   execute_plan shipped \<lparr>dog_pos = ''room1'', remaining_items = {|''item1'', ''item2''|}\<rparr>
     [Some ''move room1 -> room2'', Some ''move room2 -> room3'',
      Some ''move room3 -> room4'', Some ''move room4 -> room5'']
     = Inr \<lparr>dog_pos = ''room5'', remaining_items = {||}\<rparr> \<and>
   is_goal \<lparr>dog_pos = ''room5'', remaining_items = {||}\<rparr>"
proof -
  let ?s = "\<lparr>dog_pos = ''room1'', remaining_items = {|''item1'', ''item2''|}\<rparr>"
  let ?plan = "[Some ''move room1 -> room2'', Some ''move room2 -> room3'',
      Some ''move room3 -> room4'', Some ''move room4 -> room5'']"
  have e: "execute_plan shipped ?s ?plan = Inr \<lparr>dog_pos = ''room5'', remaining_items = {||}\<rparr>"
    by code_simp
  from bfs_plan_valid [OF bfs_plan_initial_room1] obtain ts
    where "execute_plan shipped ?s ?plan = Inr (end_state ?s ts)" "is_goal (end_state ?s ts)"
    by blast
  with e have "is_goal \<lparr>dog_pos = ''room5'', remaining_items = {||}\<rparr>" by simp
  with bfs_plan_initial_room1 e show ?thesis by simp
qed

text \<open>
  C3 (termination and unreachable goal), as amended. For every world and every start
  state, \<open>bfs_plan\<close> returns: a plan, the no-plan result, or a raised \<^verbatim>\<open>KeyError\<close>. Over
  the whole run each state is put on the queue at most once, and only states reachable
  from the start are. The set of states reachable from the start is finite; in a world
  with at least one location whose neighbour lists name only keys of the graph (as in
  the shipped one) it has at most \<open>|locations| * 2 ^ |items|\<close> members, for every start
  state. When moreover the start location is a key of the graph and every remaining
  item is a key of the item placement, \<open>bfs_plan\<close> does not raise, and it returns the
  no-plan result exactly when no goal state is reachable from the start.
\<close>

theorem bfs_plan_terminates:
  "(\<exists>r enq. bfs_plan_log w s = Some (r, enq) \<and> bfs_plan w s = Some r \<and> r \<noteq> Inl RuntimeError \<and>
       distinct enq \<and> set enq \<subseteq> {t. \<exists>ts. legal_path w s ts \<and> end_state s ts = t}) \<and>
   finite {t. \<exists>ts. legal_path w s ts \<and> end_state s ts = t} \<and>
   (neighbours_closed w \<and> fmdom (graph w) \<noteq> {||} \<longrightarrow>
      card {t. \<exists>ts. legal_path w s ts \<and> end_state s ts = t}
        \<le> fcard (fmdom (graph w)) * 2 ^ fcard (fmdom (item_start_pos w))) \<and>
   (neighbours_closed w \<and> wf_state w s \<longrightarrow>
      (\<exists>r. bfs_plan w s = Some (Inr r) \<and>
           (r = None \<longleftrightarrow> \<not> (\<exists>ts. legal_path w s ts \<and> is_goal (end_state s ts)))))"
proof (intro conjI impI)
  from bfs_plan_log_correct [of w s] obtain r h
    where l: "bfs_plan_log w s = Some (r, h)" and r: "bfs_plan w s = Some r"
      and d: "distinct h" and sub: "set h \<subseteq> reachable w s"
    by blast
  from bfs_plan_correct [of w s] r have post: "bfs_post w s r" by auto
  have "r \<noteq> Inl RuntimeError"
  proof
    assume "r = Inl RuntimeError"
    with post obtain u where "possible_actions w u = Inl RuntimeError"
      by (auto simp: bfs_post_def)
    from possible_actions_error [OF this] show False by simp
  qed
  with l r d sub show "\<exists>r enq. bfs_plan_log w s = Some (r, enq) \<and> bfs_plan w s = Some r \<and>
       r \<noteq> Inl RuntimeError \<and> distinct enq \<and>
       set enq \<subseteq> {t. \<exists>ts. legal_path w s ts \<and> end_state s ts = t}"
    unfolding reachable_alt by blast
next
  show "finite {t. \<exists>ts. legal_path w s ts \<and> end_state s ts = t}"
    using finite_reachable [of w s] by (simp add: reachable_alt)
next
  assume "neighbours_closed w \<and> fmdom (graph w) \<noteq> {||}"
  then show "card {t. \<exists>ts. legal_path w s ts \<and> end_state s ts = t}
        \<le> fcard (fmdom (graph w)) * 2 ^ fcard (fmdom (item_start_pos w))"
    using card_reachable_le_any [of w s] by (simp add: reachable_alt)
next
  assume a: "neighbours_closed w \<and> wf_state w s"
  from bfs_plan_correct [of w s] obtain r0 where r0: "bfs_plan w s = Some r0" "bfs_post w s r0"
    by blast
  from a bfs_plan_wf_no_error [of w s] r0(1) obtain r where r: "r0 = Inr r"
    by (cases r0) auto
  have "r = None \<longleftrightarrow> \<not> (\<exists>ts. legal_path w s ts \<and> is_goal (end_state s ts))"
  proof (cases r)
    case None
    with r0(2) r have "\<forall>u \<in> reachable w s. \<not> is_goal u" by (simp add: bfs_post_def)
    then have "\<not> (\<exists>ts. legal_path w s ts \<and> is_goal (end_state s ts))"
      by (auto simp: reachable_alt)
    with None show ?thesis by simp
  next
    case (Some plan)
    with r0(2) r have "\<exists>ts. legal_path w s ts \<and> is_goal (end_state s ts)"
      by (auto simp: bfs_post_def)
    with Some show ?thesis by simp
  qed
  with r0(1) r show "\<exists>r. bfs_plan w s = Some (Inr r) \<and>
           (r = None \<longleftrightarrow> \<not> (\<exists>ts. legal_path w s ts \<and> is_goal (end_state s ts)))"
    by blast
qed

theorem bfs_plan_terminates_witness:
  "neighbours_closed split_world \<and>
   wf_state split_world \<lparr>dog_pos = ''a'', remaining_items = {|''x''|}\<rparr> \<and>
   bfs_plan split_world \<lparr>dog_pos = ''a'', remaining_items = {|''x''|}\<rparr> = Some (Inr None) \<and>
   \<not> (\<exists>ts. legal_path split_world \<lparr>dog_pos = ''a'', remaining_items = {|''x''|}\<rparr> ts \<and>
            is_goal (end_state \<lparr>dog_pos = ''a'', remaining_items = {|''x''|}\<rparr> ts)) \<and>
   neighbours_closed shipped \<and> fmdom (graph shipped) \<noteq> {||} \<and>
   card {t. \<exists>ts. legal_path shipped \<lparr>dog_pos = ''garden'', remaining_items = {|''item1''|}\<rparr> ts \<and>
                 end_state \<lparr>dog_pos = ''garden'', remaining_items = {|''item1''|}\<rparr> ts = t} \<le> 28"
proof -
  let ?s = "\<lparr>dog_pos = ''a'', remaining_items = {|''x''|}\<rparr>"
  let ?g = "\<lparr>dog_pos = ''garden'', remaining_items = {|''item1''|}\<rparr>"
  have c: "neighbours_closed split_world \<and> wf_state split_world ?s" by code_simp
  have e: "bfs_plan split_world ?s = Some (Inr None)" by code_simp
  have n: "neighbours_closed shipped \<and> fmdom (graph shipped) \<noteq> {||}" by code_simp
  have b: "fcard (fmdom (graph shipped)) * 2 ^ fcard (fmdom (item_start_pos shipped)) = 28"
    by code_simp
  note t = bfs_plan_terminates [of split_world ?s, THEN conjunct2, THEN conjunct2, THEN conjunct2,
      THEN mp, OF c]
  from t obtain r
    where "bfs_plan split_world ?s = Some (Inr r)"
      and "r = None \<longleftrightarrow> \<not> (\<exists>ts. legal_path split_world ?s ts \<and> is_goal (end_state ?s ts))"
    by blast
  with e have u: "\<not> (\<exists>ts. legal_path split_world ?s ts \<and> is_goal (end_state ?s ts))" by simp
  note k = bfs_plan_terminates [of shipped ?g, THEN conjunct2, THEN conjunct2, THEN conjunct1,
      THEN mp, OF n]
  from k b have "card {t. \<exists>ts. legal_path shipped ?g ts \<and> end_state ?g ts = t} \<le> 28" by simp
  with c e u n show ?thesis by (intro conjI) simp_all
qed

text \<open>
  The claim as stated ranges over every start state. From a state whose location is
  not a key of the graph no transition is legal (\<open>possible_actions\<close> raises), the state
  is not a goal, and \<open>bfs_plan\<close> raises \<^verbatim>\<open>KeyError\<close> instead of returning the no-plan
  result.
\<close>

theorem bfs_plan_unknown_location_counterexample:
  "\<not> is_goal \<lparr>dog_pos = ''garden'', remaining_items = {|''item1''|}\<rparr> \<and>
   possible_actions shipped \<lparr>dog_pos = ''garden'', remaining_items = {|''item1''|}\<rparr> = Inl KeyError \<and>
   bfs_plan shipped \<lparr>dog_pos = ''garden'', remaining_items = {|''item1''|}\<rparr> = Some (Inl KeyError)"
  by code_simp

text \<open>
  C8 (zero-length plan and no plan). For every world and every state \<open>s\<close>: if \<open>s\<close> is a
  goal state, \<open>bfs_plan s\<close> returns the empty plan; the empty plan is returned only for a
  goal state; and the no-plan result, a different value, is returned only when \<open>s\<close> is
  not a goal state and no goal state is reachable from it.
\<close>

theorem zero_length_plan_vs_no_plan:
  "(is_goal s \<longrightarrow> bfs_plan w s = Some (Inr (Some []))) \<and>
   (bfs_plan w s = Some (Inr (Some [])) \<longrightarrow> is_goal s) \<and>
   (bfs_plan w s = Some (Inr None) \<longrightarrow>
      \<not> is_goal s \<and> \<not> (\<exists>ts. legal_path w s ts \<and> is_goal (end_state s ts)))"
proof (intro conjI impI)
  assume "is_goal s"
  then show "bfs_plan w s = Some (Inr (Some []))" by (rule bfs_plan_goal_start)
next
  assume "bfs_plan w s = Some (Inr (Some []))"
  with bfs_plan_correct [of w s] have "bfs_post w s (Inr (Some []))" by auto
  then show "is_goal s" by (auto simp: bfs_post_def)
next
  assume n: "bfs_plan w s = Some (Inr None)"
  with bfs_plan_goal_start [of s w] show "\<not> is_goal s" by auto
  from n bfs_plan_correct [of w s] have "bfs_post w s (Inr None)" by auto
  then show "\<not> (\<exists>ts. legal_path w s ts \<and> is_goal (end_state s ts))"
    by (auto simp: bfs_post_def reachable_alt)
qed

theorem zero_length_plan_vs_no_plan_witness:
  "is_goal \<lparr>dog_pos = ''room1'', remaining_items = {||}\<rparr> \<and>
   bfs_plan shipped \<lparr>dog_pos = ''room1'', remaining_items = {||}\<rparr> = Some (Inr (Some [])) \<and>
   bfs_plan split_world \<lparr>dog_pos = ''a'', remaining_items = {|''x''|}\<rparr> = Some (Inr None) \<and>
   \<not> is_goal \<lparr>dog_pos = ''a'', remaining_items = {|''x''|}\<rparr>"
proof -
  have g: "is_goal \<lparr>dog_pos = ''room1'', remaining_items = {||}\<rparr>" by code_simp
  have e: "bfs_plan split_world \<lparr>dog_pos = ''a'', remaining_items = {|''x''|}\<rparr> = Some (Inr None)"
    by code_simp
  from zero_length_plan_vs_no_plan [of "\<lparr>dog_pos = ''room1'', remaining_items = {||}\<rparr>" shipped] g
  have 1: "bfs_plan shipped \<lparr>dog_pos = ''room1'', remaining_items = {||}\<rparr> = Some (Inr (Some []))"
    by blast
  from zero_length_plan_vs_no_plan [of "\<lparr>dog_pos = ''a'', remaining_items = {|''x''|}\<rparr>" split_world] e
  have 2: "\<not> is_goal \<lparr>dog_pos = ''a'', remaining_items = {|''x''|}\<rparr>" by blast
  from g 1 e 2 show ?thesis by simp
qed

section \<open>Claims about the shipped world\<close>

lemma initial_state_wf:
  assumes "start_pos |\<in>| fmdom (graph w)"
  shows "\<exists>s0. initial_state w start_pos = Inr s0 \<and> wf_state w s0"
proof -
  let ?s = "\<lparr>dog_pos = start_pos, remaining_items = fmdom (item_start_pos w)\<rparr>"
  let ?s' = "?s\<lparr>remaining_items := remaining_items ?s |-| items_at w (dog_pos ?s) (remaining_items ?s)\<rparr>"
  have k: "known_items w ?s" by (simp add: known_items_def)
  from auto_pickup_known [OF k] obtain found
    where a: "auto_pickup w ?s = Inr (?s', found)"
    by blast
  have "wf_state w ?s'"
    using assms by (auto simp: wf_state_def)
  moreover from a have "initial_state w start_pos = Inr ?s'" by (simp add: initial_state_def)
  ultimately show ?thesis by blast
qed

lemma wf_state_lookups:
  assumes "wf_state w t"
  shows "fmlookup (graph w) (dog_pos t) \<noteq> None"
    and "\<forall>it. it |\<in>| remaining_items t \<longrightarrow> fmlookup (item_start_pos w) it \<noteq> None"
  using assms by (auto simp: wf_state_def fmlookup_dom_iff)

lemma shipped_closed_world: "closed_world shipped"
  by code_simp

lemma wf_path_safe:
  assumes nc: "neighbours_closed w" and wf0: "wf_state w s0" and l: "legal_path w s0 ts"
  shows "fmlookup (graph w) (dog_pos (end_state s0 ts)) \<noteq> None \<and>
        (\<forall>it. it |\<in>| remaining_items (end_state s0 ts) \<longrightarrow> fmlookup (item_start_pos w) it \<noteq> None) \<and>
        (\<exists>acts. possible_actions w (end_state s0 ts) = Inr acts) \<and>
        (\<forall>room. \<exists>found. items_in_room w room (remaining_items (end_state s0 ts)) = Inr found)"
proof -
  from wf_reach_in [OF nc wf0 legal_path_reach_in [OF l]]
  have wf: "wf_state w (end_state s0 ts)" .
  show ?thesis
  proof (intro conjI allI)
    show "fmlookup (graph w) (dog_pos (end_state s0 ts)) \<noteq> None"
      by (rule wf_state_lookups(1) [OF wf])
    show "it |\<in>| remaining_items (end_state s0 ts) \<longrightarrow> fmlookup (item_start_pos w) it \<noteq> None" for it
      using wf_state_lookups(2) [OF wf] by simp
    show "\<exists>acts. possible_actions w (end_state s0 ts) = Inr acts"
      by (rule wf_possible_actions [OF wf])
    show "\<exists>found. items_in_room w room (remaining_items (end_state s0 ts)) = Inr found" for room
      by (rule wf_items_in_room [OF wf])
  qed
qed

text \<open>
  C9 (closed-world safety). In the shipped configuration every neighbour named in
  \<^verbatim>\<open>GRAPH\<close> and every item home in \<^verbatim>\<open>ITEM_START_POS\<close> is a key of \<^verbatim>\<open>GRAPH\<close>.
  Consequently, for every start location that is a key of \<^verbatim>\<open>GRAPH\<close>, \<open>initial_state\<close>
  returns a state, and at every state reached from it by legal transitions the graph
  lookup of \<open>possible_actions\<close> and the home lookups of \<open>items_in_room\<close> find their keys:
  \<open>possible_actions\<close> returns, and \<open>items_in_room\<close> returns for every room.
\<close>

theorem closed_world_safety:
  "closed_world shipped \<and>
   (\<forall>start_pos. start_pos |\<in>| fmdom GRAPH \<longrightarrow>
      (\<exists>s0. initial_state shipped start_pos = Inr s0 \<and>
         (\<forall>ts. legal_path shipped s0 ts \<longrightarrow>
            fmlookup GRAPH (dog_pos (end_state s0 ts)) \<noteq> None \<and>
            (\<forall>it. it |\<in>| remaining_items (end_state s0 ts) \<longrightarrow> fmlookup ITEM_START_POS it \<noteq> None) \<and>
            (\<exists>acts. possible_actions shipped (end_state s0 ts) = Inr acts) \<and>
            (\<forall>room. \<exists>found.
               items_in_room shipped room (remaining_items (end_state s0 ts)) = Inr found))))"
proof (rule conjI)
  show "closed_world shipped" by (rule shipped_closed_world)
next
  have nc: "neighbours_closed shipped" using shipped_closed_world by (simp add: closed_world_def)
  have g: "graph shipped = GRAPH" and p: "item_start_pos shipped = ITEM_START_POS"
    by (simp_all add: shipped_def)
  show "\<forall>start_pos. start_pos |\<in>| fmdom GRAPH \<longrightarrow>
      (\<exists>s0. initial_state shipped start_pos = Inr s0 \<and>
         (\<forall>ts. legal_path shipped s0 ts \<longrightarrow>
            fmlookup GRAPH (dog_pos (end_state s0 ts)) \<noteq> None \<and>
            (\<forall>it. it |\<in>| remaining_items (end_state s0 ts) \<longrightarrow> fmlookup ITEM_START_POS it \<noteq> None) \<and>
            (\<exists>acts. possible_actions shipped (end_state s0 ts) = Inr acts) \<and>
            (\<forall>room. \<exists>found.
               items_in_room shipped room (remaining_items (end_state s0 ts)) = Inr found)))"
  proof (intro allI impI)
    fix start_pos
    assume "start_pos |\<in>| fmdom GRAPH"
    then have "start_pos |\<in>| fmdom (graph shipped)" by (simp add: g)
    from initial_state_wf [OF this] obtain s0
      where i: "initial_state shipped start_pos = Inr s0" and wf0: "wf_state shipped s0" by blast
    show "\<exists>s0. initial_state shipped start_pos = Inr s0 \<and>
         (\<forall>ts. legal_path shipped s0 ts \<longrightarrow>
            fmlookup GRAPH (dog_pos (end_state s0 ts)) \<noteq> None \<and>
            (\<forall>it. it |\<in>| remaining_items (end_state s0 ts) \<longrightarrow> fmlookup ITEM_START_POS it \<noteq> None) \<and>
            (\<exists>acts. possible_actions shipped (end_state s0 ts) = Inr acts) \<and>
            (\<forall>room. \<exists>found.
               items_in_room shipped room (remaining_items (end_state s0 ts)) = Inr found))"
    proof (rule exI [of _ s0], rule conjI, rule i, intro allI impI)
      fix ts assume l: "legal_path shipped s0 ts"
      from wf_path_safe [OF nc wf0 l, unfolded g p]
      show "fmlookup GRAPH (dog_pos (end_state s0 ts)) \<noteq> None \<and>
            (\<forall>it. it |\<in>| remaining_items (end_state s0 ts) \<longrightarrow> fmlookup ITEM_START_POS it \<noteq> None) \<and>
            (\<exists>acts. possible_actions shipped (end_state s0 ts) = Inr acts) \<and>
            (\<forall>room. \<exists>found.
               items_in_room shipped room (remaining_items (end_state s0 ts)) = Inr found)" .
    qed
  qed
qed

theorem closed_world_safety_witness:
  "closed_world shipped \<and> ''room2'' |\<in>| fmdom GRAPH \<and>
   initial_state shipped ''room2'' = Inr \<lparr>dog_pos = ''room2'', remaining_items = {|''item2''|}\<rparr> \<and>
   legal_path shipped \<lparr>dog_pos = ''room2'', remaining_items = {|''item2''|}\<rparr>
     [(''move room2 -> room3'', \<lparr>dog_pos = ''room3'', remaining_items = {|''item2''|}\<rparr>)] \<and>
   (\<exists>acts. possible_actions shipped \<lparr>dog_pos = ''room3'', remaining_items = {|''item2''|}\<rparr> = Inr acts)"
proof -
  let ?s0 = "\<lparr>dog_pos = ''room2'', remaining_items = {|''item2''|}\<rparr>"
  let ?ts = "[(''move room2 -> room3'', \<lparr>dog_pos = ''room3'', remaining_items = {|''item2''|}\<rparr>)]"
  have k: "''room2'' |\<in>| fmdom GRAPH" by code_simp
  have i: "initial_state shipped ''room2'' = Inr ?s0" by code_simp
  have l: "legal_path shipped ?s0 ?ts" by code_simp
  have e: "end_state ?s0 ?ts = \<lparr>dog_pos = ''room3'', remaining_items = {|''item2''|}\<rparr>" by simp
  have c: "closed_world shipped" using closed_world_safety by (rule conjunct1)
  from closed_world_safety have "''room2'' |\<in>| fmdom GRAPH \<longrightarrow>
      (\<exists>s0. initial_state shipped ''room2'' = Inr s0 \<and>
         (\<forall>ts. legal_path shipped s0 ts \<longrightarrow>
            fmlookup GRAPH (dog_pos (end_state s0 ts)) \<noteq> None \<and>
            (\<forall>it. it |\<in>| remaining_items (end_state s0 ts) \<longrightarrow> fmlookup ITEM_START_POS it \<noteq> None) \<and>
            (\<exists>acts. possible_actions shipped (end_state s0 ts) = Inr acts) \<and>
            (\<forall>room. \<exists>found.
               items_in_room shipped room (remaining_items (end_state s0 ts)) = Inr found)))"
    by (rule conjunct2 [THEN spec])
  with k obtain s0 where s0: "initial_state shipped ''room2'' = Inr s0"
    and a: "\<forall>ts. legal_path shipped s0 ts \<longrightarrow>
            fmlookup GRAPH (dog_pos (end_state s0 ts)) \<noteq> None \<and>
            (\<forall>it. it |\<in>| remaining_items (end_state s0 ts) \<longrightarrow> fmlookup ITEM_START_POS it \<noteq> None) \<and>
            (\<exists>acts. possible_actions shipped (end_state s0 ts) = Inr acts) \<and>
            (\<forall>room. \<exists>found.
               items_in_room shipped room (remaining_items (end_state s0 ts)) = Inr found)"
    by (elim impE exE conjE)
  from s0 i have eq: "s0 = ?s0" by simp
  note big = a [unfolded eq, THEN spec, of ?ts, THEN mp, OF l]
  from big have "\<exists>acts. possible_actions shipped (end_state ?s0 ?ts) = Inr acts"
    by (elim conjE)
  then have "\<exists>acts. possible_actions shipped \<lparr>dog_pos = ''room3'', remaining_items = {|''item2''|}\<rparr> = Inr acts"
    unfolding e .
  with c k i l show ?thesis by (intro conjI)
qed

lemma fmdom_GRAPH:
  "fmdom GRAPH = {|ROOM1, ROOM2, ROOM3, ROOM4, ROOM5, OUTSIDE1, OUTSIDE2|}"
  by (simp add: GRAPH_def)

lemma state_in_product:
  assumes "p \<in> set ps" and "r \<in> set rs"
  shows "\<lparr>dog_pos = p, remaining_items = r\<rparr>
           \<in> set (concat (map (\<lambda>p. map (\<lambda>r. \<lparr>dog_pos = p, remaining_items = r\<rparr>) rs) ps))"
  using assms by auto

lemma bfs_plan_execute:
  assumes "bfs_plan w s = Some (Inr (Some plan))"
  shows "\<exists>g. execute_plan w s plan = Inr g \<and> is_goal g"
proof -
  from bfs_plan_correct [of w s] assms have "bfs_post w s (Inr (Some plan))" by auto
  then obtain ts where ts: "legal_path w s ts" "is_goal (end_state s ts)" "plan = map (Some \<circ> fst) ts"
    by (auto simp: bfs_post_def)
  from execute_legal_path [OF ts(1)] ts show ?thesis by auto
qed

text \<open>
  C10 (a plan always exists in the shipped world). For every state whose location is
  one of the seven keys of \<^verbatim>\<open>GRAPH\<close> and whose remaining items are a subset of
  \<open>{item1, item2}\<close>, \<open>bfs_plan\<close> returns a plan, never the no-plan result and never an
  error, and replaying that plan from the state ends in a goal state.
\<close>

theorem shipped_plan_exists:
  assumes "dog_pos s |\<in>| fmdom GRAPH" and "remaining_items s |\<subseteq>| {|ITEM1, ITEM2|}"
  shows "\<exists>plan g. bfs_plan shipped s = Some (Inr (Some plan)) \<and>
                  execute_plan shipped s plan = Inr g \<and> is_goal g"
proof -
  have p: "dog_pos s \<in> set [ROOM1, ROOM2, ROOM3, ROOM4, ROOM5, OUTSIDE1, OUTSIDE2]"
    using assms(1) unfolding fmdom_GRAPH by simp
  have r: "remaining_items s \<in> set [{||}, {|ITEM1|}, {|ITEM2|}, {|ITEM1, ITEM2|}]"
    using fsubset_pair [OF assms(2)] by simp
  have "s = \<lparr>dog_pos = dog_pos s, remaining_items = remaining_items s\<rparr>" by simp
  with state_in_product [OF p r] have "s \<in> set shipped_states"
    unfolding shipped_states_def by simp
  from all_return_plansD [OF shipped_states_plan this]
  obtain plan where plan: "bfs_plan shipped s = Some (Inr (Some plan))"
    by (auto dest: returns_planD)
  from bfs_plan_execute [OF plan] plan show ?thesis by blast
qed

theorem shipped_plan_exists_witness:
  "''outside1'' |\<in>| fmdom GRAPH \<and> {|''item1''|} |\<subseteq>| {|ITEM1, ITEM2|} \<and>
   bfs_plan shipped \<lparr>dog_pos = ''outside1'', remaining_items = {|''item1''|}\<rparr>
     = Some (Inr (Some [Some ''move outside1 -> room3'', Some ''move room3 -> room2''])) \<and>
   execute_plan shipped \<lparr>dog_pos = ''outside1'', remaining_items = {|''item1''|}\<rparr>
       [Some ''move outside1 -> room3'', Some ''move room3 -> room2'']
     = Inr \<lparr>dog_pos = ''room2'', remaining_items = {||}\<rparr> \<and>
   is_goal \<lparr>dog_pos = ''room2'', remaining_items = {||}\<rparr>"
proof -
  let ?s = "\<lparr>dog_pos = ''outside1'', remaining_items = {|''item1''|}\<rparr>"
  let ?plan = "[Some ''move outside1 -> room3'', Some ''move room3 -> room2'']"
  have a: "dog_pos ?s |\<in>| fmdom GRAPH" by code_simp
  have b: "remaining_items ?s |\<subseteq>| {|ITEM1, ITEM2|}" by code_simp
  have e: "bfs_plan shipped ?s = Some (Inr (Some ?plan))" by code_simp
  have x: "execute_plan shipped ?s ?plan = Inr \<lparr>dog_pos = ''room2'', remaining_items = {||}\<rparr>"
    by code_simp
  from shipped_plan_exists [OF a b] obtain plan g
    where "bfs_plan shipped ?s = Some (Inr (Some plan))"
      and "execute_plan shipped ?s plan = Inr g" and g: "is_goal g"
    by blast
  with e x have "g = \<lparr>dog_pos = ''room2'', remaining_items = {||}\<rparr>" by simp
  with g have "is_goal \<lparr>dog_pos = ''room2'', remaining_items = {||}\<rparr>" by simp
  with a b e x show ?thesis by simp
qed

end
